theory Spec2Isabelle
  imports Main
begin

section \<open>Data model of \<open>sjtu::linked_hashmap\<close>\<close>

text \<open>
  The container of \<^verbatim>\<open>src/linked_hashmap.hpp\<close> is a pointer structure: every entry is
  one heap node that is threaded on a doubly linked list (\<open>prev\<close>, \<open>next\<close>) and on a
  bucket chain (\<open>hash_next\<close>) at the same time, and an iterator is a pair of raw
  pointers. The model therefore has an explicit store.

  \<^item> An address is a natural number; a \<open>Node *\<close> is an \<open>addr option\<close> with \<open>None\<close> for
    \<open>nullptr\<close>. \<open>head\<close> and \<open>tail\<close> are results of \<open>new\<close> and never null, so they are
    plain addresses.
  \<^item> \<open>size_t\<close> is modelled by \<open>nat\<close>: a counter would need \<open>2^64\<close> live nodes to wrap
    upwards. The one downward wrap the code can perform (\<open>--element_count\<close> at zero) is
    written out.
  \<^item> The entry \<open>value_type *data\<close> is owned by its node alone and is stored inline as an
    option (\<open>None\<close> for the sentinels' \<open>nullptr\<close>).
  \<^item> The bucket array is owned by its container alone and is a list inside the
    container record.
  \<^item> \<open>Hash\<close> is a parameter \<open>hf\<close> of every operation that hashes; \<open>Equal\<close> is the
    default \<open>std::equal_to\<close>, HOL equality.
  \<^item> \<open>iterator\<close> and \<open>const_iterator\<close> have the same two fields and the same operator
    bodies; one record models both.
  \<^item> Dereferencing a null or dangling pointer, indexing outside the bucket array and
    \<open>% 0\<close> are undefined behaviour in the source; the model returns the error value
    \<open>undefined_behaviour\<close> there. A loop that follows pointers may run forever on a
    cyclic heap; such loops are \<open>partial_function (option)\<close>, with \<open>None\<close> for
    a run that does not return.
\<close>

datatype error = invalid_iterator | index_out_of_bound | undefined_behaviour

type_synonym addr = nat

record ('k, 'v) Node =
  data :: "('k \<times> 'v) option"
  prev :: "addr option"
  "next" :: "addr option"
  hash_next :: "addr option"

record linked_hashmap =
  head :: addr
  tail :: addr
  buckets :: "addr option list"
  bucket_count :: nat
  element_count :: nat

type_synonym ('k, 'v) heap = "addr \<rightharpoonup> ('k, 'v) Node"

text \<open>
  The whole program state: the node heap, the container objects by address (the
  \<open>this\<close> pointers that iterators store), and the allocator's next fresh address.
  \<open>new Node\<close> is modelled by a bump allocator; \<open>delete\<close> removes the node from the heap.
\<close>

record ('k, 'v) state =
  nodes :: "('k, 'v) heap"
  maps :: "addr \<rightharpoonup> linked_hashmap"
  fresh :: addr

record iterator =
  node :: "addr option"
  map_ptr :: "addr option"

type_synonym 'a result = "(error + 'a) option"

definition INITIAL_BUCKET_COUNT :: nat where
  "INITIAL_BUCKET_COUNT = 16"

section \<open>Private helpers of the container\<close>

text \<open>\<open>Node()\<close> and \<open>Node(const value_type &)\<close>: all three links start as \<open>nullptr\<close>.\<close>

definition new_Node :: "('k \<times> 'v) option \<Rightarrow> ('k, 'v) state \<Rightarrow> addr \<times> ('k, 'v) state" where
  "new_Node d s =
     (fresh s,
      s\<lparr>nodes := (nodes s)(fresh s \<mapsto> \<lparr>data = d, prev = None, next = None, hash_next = None\<rparr>),
        fresh := Suc (fresh s)\<rparr>)"

definition init_buckets :: "nat \<Rightarrow> linked_hashmap \<Rightarrow> linked_hashmap" where
  "init_buckets count m = m\<lparr>bucket_count := count, buckets := replicate count None\<rparr>"

text \<open>The loop of \<open>find_node\<close> (lines 95-100), following \<open>hash_next\<close> from \<open>cur\<close>.\<close>

partial_function (option) find_node_loop ::
  "('k, 'v) heap \<Rightarrow> 'k \<Rightarrow> addr option \<Rightarrow> addr option result" where
  "find_node_loop h key cur =
     (case cur of
        None \<Rightarrow> Some (Inr None)
      | Some c \<Rightarrow>
          (case h c of
             None \<Rightarrow> Some (Inl undefined_behaviour)
           | Some nd \<Rightarrow>
               (case data nd of
                  None \<Rightarrow> Some (Inl undefined_behaviour)
                | Some kv \<Rightarrow>
                    if fst kv = key then Some (Inr (Some c))
                    else find_node_loop h key (hash_next nd))))"

declare find_node_loop.simps [code]

definition find_node ::
  "('k \<Rightarrow> nat) \<Rightarrow> addr \<Rightarrow> 'k \<Rightarrow> ('k, 'v) state \<Rightarrow> addr option result" where
  "find_node hf this key s =
     (case maps s this of
        None \<Rightarrow> Some (Inl undefined_behaviour)
      | Some m \<Rightarrow>
          if bucket_count m = 0 \<or> \<not> hf key mod bucket_count m < length (buckets m)
          then Some (Inl undefined_behaviour)
          else find_node_loop (nodes s) key (buckets m ! (hf key mod bucket_count m)))"

text \<open>The loop of \<open>rehash\<close> (lines 76-81): every node of the order list is pushed on the
  front of its new bucket chain.\<close>

partial_function (option) rehash_loop ::
  "('k \<Rightarrow> nat) \<Rightarrow> addr \<Rightarrow> nat \<Rightarrow> ('k, 'v) heap \<Rightarrow> addr option list \<Rightarrow> addr option
     \<Rightarrow> (('k, 'v) heap \<times> addr option list) result" where
  "rehash_loop hf tln bc h bks cur =
     (if cur = Some tln then Some (Inr (h, bks))
      else
        (case cur of
           None \<Rightarrow> Some (Inl undefined_behaviour)
         | Some c \<Rightarrow>
             (case h c of
                None \<Rightarrow> Some (Inl undefined_behaviour)
              | Some nd \<Rightarrow>
                  (case data nd of
                     None \<Rightarrow> Some (Inl undefined_behaviour)
                   | Some kv \<Rightarrow>
                       if bc = 0 \<or> \<not> hf (fst kv) mod bc < length bks
                       then Some (Inl undefined_behaviour)
                       else rehash_loop hf tln bc
                              (h(c \<mapsto> nd\<lparr>hash_next := bks ! (hf (fst kv) mod bc)\<rparr>))
                              (bks[hf (fst kv) mod bc := Some c])
                              (next nd)))))"

declare rehash_loop.simps [code]

definition rehash ::
  "('k \<Rightarrow> nat) \<Rightarrow> addr \<Rightarrow> nat \<Rightarrow> ('k, 'v) state \<Rightarrow> ('k, 'v) state result" where
  "rehash hf this new_bucket_count s =
     (case maps s this of
        None \<Rightarrow> Some (Inl undefined_behaviour)
      | Some m \<Rightarrow>
          (case nodes s (head m) of
             None \<Rightarrow> Some (Inl undefined_behaviour)
           | Some hdn \<Rightarrow>
               (case rehash_loop hf (tail m) new_bucket_count (nodes s)
                       (buckets (init_buckets new_bucket_count m)) (next hdn) of
                  None \<Rightarrow> None
                | Some (Inl e) \<Rightarrow> Some (Inl e)
                | Some (Inr (h', bks')) \<Rightarrow>
                    Some (Inr (s\<lparr>nodes := h',
                                 maps := (maps s)(this \<mapsto>
                                   (init_buckets new_bucket_count m)\<lparr>buckets := bks'\<rparr>)\<rparr>)))))"

text \<open>
  \<open>check_and_rehash\<close> compares \<open>element_count > bucket_count * 0.75\<close> in \<open>double\<close>. Both
  sides are exact for counts below \<open>2^51\<close> (a count times three quarters is a dyadic
  rational with at most 53 significant bits), so the comparison is the integer
  comparison \<open>4 * element_count > 3 * bucket_count\<close>.
\<close>

definition check_and_rehash ::
  "('k \<Rightarrow> nat) \<Rightarrow> addr \<Rightarrow> ('k, 'v) state \<Rightarrow> ('k, 'v) state result" where
  "check_and_rehash hf this s =
     (case maps s this of
        None \<Rightarrow> Some (Inl undefined_behaviour)
      | Some m \<Rightarrow>
          if 4 * element_count m > 3 * bucket_count m
          then rehash hf this (bucket_count m * 2) s
          else Some (Inr s))"

section \<open>Iterators\<close>

text \<open>\<open>iterator()\<close>: both pointers null.\<close>

definition iterator_default :: iterator where
  "iterator_default = \<lparr>node = None, map_ptr = None\<rparr>"

text \<open>
  \<open>operator++()\<close>: \<open>!node\<close> is tested first and short-circuits; only then is \<open>map->tail\<close>
  read, and \<open>node->next\<close> after that.
\<close>

definition iter_inc :: "('k, 'v) state \<Rightarrow> iterator \<Rightarrow> error + iterator" where
  "iter_inc s it =
     (case node it of
        None \<Rightarrow> Inl invalid_iterator
      | Some n \<Rightarrow>
          (case map_ptr it of
             None \<Rightarrow> Inl undefined_behaviour
           | Some a \<Rightarrow>
               (case maps s a of
                  None \<Rightarrow> Inl undefined_behaviour
                | Some m \<Rightarrow>
                    if n = tail m then Inl invalid_iterator
                    else
                      (case nodes s n of
                         None \<Rightarrow> Inl undefined_behaviour
                       | Some nd \<Rightarrow> Inr (it\<lparr>node := next nd\<rparr>)))))"

text \<open>\<open>operator++(int)\<close>: the same check; returns the old position and the advanced one.\<close>

definition iter_post_inc :: "('k, 'v) state \<Rightarrow> iterator \<Rightarrow> error + iterator \<times> iterator" where
  "iter_post_inc s it = (case iter_inc s it of Inl e \<Rightarrow> Inl e | Inr it' \<Rightarrow> Inr (it, it'))"

text \<open>\<open>operator--()\<close>: after the null test, \<open>node->prev\<close> is compared with \<open>map->head\<close>.\<close>

definition iter_dec :: "('k, 'v) state \<Rightarrow> iterator \<Rightarrow> error + iterator" where
  "iter_dec s it =
     (case node it of
        None \<Rightarrow> Inl invalid_iterator
      | Some n \<Rightarrow>
          (case nodes s n of
             None \<Rightarrow> Inl undefined_behaviour
           | Some nd \<Rightarrow>
               (case map_ptr it of
                  None \<Rightarrow> Inl undefined_behaviour
                | Some a \<Rightarrow>
                    (case maps s a of
                       None \<Rightarrow> Inl undefined_behaviour
                     | Some m \<Rightarrow>
                         if prev nd = Some (head m) then Inl invalid_iterator
                         else Inr (it\<lparr>node := prev nd\<rparr>)))))"

definition iter_post_dec :: "('k, 'v) state \<Rightarrow> iterator \<Rightarrow> error + iterator \<times> iterator" where
  "iter_post_dec s it = (case iter_dec s it of Inl e \<Rightarrow> Inl e | Inr it' \<Rightarrow> Inr (it, it'))"

text \<open>\<open>operator*\<close>: \<open>*(node->data)\<close>, with no check at all.\<close>

definition iter_deref :: "('k, 'v) state \<Rightarrow> iterator \<Rightarrow> error + 'k \<times> 'v" where
  "iter_deref s it =
     (case node it of
        None \<Rightarrow> Inl undefined_behaviour
      | Some n \<Rightarrow>
          (case nodes s n of
             None \<Rightarrow> Inl undefined_behaviour
           | Some nd \<Rightarrow>
               (case data nd of
                  None \<Rightarrow> Inl undefined_behaviour
                | Some kv \<Rightarrow> Inr kv)))"

definition iter_eq :: "iterator \<Rightarrow> iterator \<Rightarrow> bool" where
  "iter_eq a b = (node a = node b \<and> map_ptr a = map_ptr b)"

definition iter_neq :: "iterator \<Rightarrow> iterator \<Rightarrow> bool" where
  "iter_neq a b = (\<not> iter_eq a b)"

section \<open>Public operations\<close>

text \<open>The default constructor, building the container object at address \<open>this\<close>.\<close>

definition construct :: "addr \<Rightarrow> ('k, 'v) state \<Rightarrow> ('k, 'v) state" where
  "construct this s =
     (let (h, s1) = new_Node None s;
          (t, s2) = new_Node None s1;
          hp = (nodes s2)(h \<mapsto> \<lparr>data = None, prev = None, next = Some t, hash_next = None\<rparr>,
                          t \<mapsto> \<lparr>data = None, prev = Some h, next = None, hash_next = None\<rparr>)
      in s2\<lparr>nodes := hp,
            maps := (maps s2)(this \<mapsto> init_buckets INITIAL_BUCKET_COUNT
                      \<lparr>head = h, tail = t, buckets = [], bucket_count = 0, element_count = 0\<rparr>)\<rparr>)"

text \<open>
  Lines 413-416 of \<open>insert\<close>: the freshly allocated node \<open>n\<close> is linked in before
  \<open>tail\<close>.
\<close>

definition append_node :: "('k, 'v) heap \<Rightarrow> addr \<Rightarrow> addr \<Rightarrow> error + ('k, 'v) heap" where
  "append_node h tln n =
     (case h tln of
        None \<Rightarrow> Inl undefined_behaviour
      | Some td \<Rightarrow>
          (case h n of
             None \<Rightarrow> Inl undefined_behaviour
           | Some nd \<Rightarrow>
               (case prev td of
                  None \<Rightarrow> Inl undefined_behaviour
                | Some p \<Rightarrow>
                    (case (h(n \<mapsto> nd\<lparr>prev := Some p, next := Some tln\<rparr>)) p of
                       None \<Rightarrow> Inl undefined_behaviour
                     | Some pd \<Rightarrow>
                         (case (h(n \<mapsto> nd\<lparr>prev := Some p, next := Some tln\<rparr>,
                                  p \<mapsto> pd\<lparr>next := Some n\<rparr>)) tln of
                            None \<Rightarrow> Inl undefined_behaviour
                          | Some td2 \<Rightarrow>
                              Inr (h(n \<mapsto> nd\<lparr>prev := Some p, next := Some tln\<rparr>,
                                     p \<mapsto> pd\<lparr>next := Some n\<rparr>,
                                     tln \<mapsto> td2\<lparr>prev := Some n\<rparr>)))))))"

text \<open>Lines 418-420 of \<open>insert\<close>: the node is pushed on the front of its bucket chain.\<close>

definition bucket_push ::
  "('k \<Rightarrow> nat) \<Rightarrow> linked_hashmap \<Rightarrow> ('k, 'v) heap \<Rightarrow> 'k \<Rightarrow> addr
     \<Rightarrow> error + ('k, 'v) heap \<times> addr option list" where
  "bucket_push hf m h key n =
     (if bucket_count m = 0 \<or> \<not> hf key mod bucket_count m < length (buckets m)
      then Inl undefined_behaviour
      else
        (case h n of
           None \<Rightarrow> Inl undefined_behaviour
         | Some nd \<Rightarrow>
             Inr (h(n \<mapsto> nd\<lparr>hash_next := buckets m ! (hf key mod bucket_count m)\<rparr>),
                  (buckets m)[hf key mod bucket_count m := Some n])))"

text \<open>
  Lines 411-423 of \<open>insert\<close>: the new node is allocated, linked in before \<open>tail\<close>,
  pushed on the front of its bucket chain, and counted.
\<close>

definition insert_new ::
  "('k \<Rightarrow> nat) \<Rightarrow> addr \<Rightarrow> 'k \<times> 'v \<Rightarrow> ('k, 'v) state
     \<Rightarrow> error + (iterator \<times> bool) \<times> ('k, 'v) state" where
  "insert_new hf this val s =
     (case maps s this of
        None \<Rightarrow> Inl undefined_behaviour
      | Some m \<Rightarrow>
          (case new_Node (Some val) s of
             (n, s1) \<Rightarrow>
               (case append_node (nodes s1) (tail m) n of
                  Inl e \<Rightarrow> Inl e
                | Inr h1 \<Rightarrow>
                    (case bucket_push hf m h1 (fst val) n of
                       Inl e \<Rightarrow> Inl e
                     | Inr (h2, bks) \<Rightarrow>
                         Inr ((\<lparr>node = Some n, map_ptr = Some this\<rparr>, True),
                              s1\<lparr>nodes := h2,
                                 maps := (maps s1)(this \<mapsto>
                                   m\<lparr>buckets := bks,
                                     element_count := element_count m + 1\<rparr>)\<rparr>)))))"

definition insert_lhm ::
  "('k \<Rightarrow> nat) \<Rightarrow> addr \<Rightarrow> 'k \<times> 'v \<Rightarrow> ('k, 'v) state
     \<Rightarrow> ((iterator \<times> bool) \<times> ('k, 'v) state) result" where
  "insert_lhm hf this val s =
     (case find_node hf this (fst val) s of
        None \<Rightarrow> None
      | Some (Inl e) \<Rightarrow> Some (Inl e)
      | Some (Inr (Some existing)) \<Rightarrow>
          Some (Inr ((\<lparr>node = Some existing, map_ptr = Some this\<rparr>, False), s))
      | Some (Inr None) \<Rightarrow>
          (case check_and_rehash hf this s of
             None \<Rightarrow> None
           | Some (Inl e) \<Rightarrow> Some (Inl e)
           | Some (Inr s1) \<Rightarrow> Some (insert_new hf this val s1)))"

text \<open>
  \<open>erase\<close> walks the bucket chain with a \<open>Node **\<close>, which points either at a slot of
  the bucket array or at the \<open>hash_next\<close> field of a node.
\<close>

datatype loc = Bucket nat | Hash_next addr

definition load :: "('k, 'v) heap \<Rightarrow> addr option list \<Rightarrow> loc \<Rightarrow> error + addr option" where
  "load h bks l =
     (case l of
        Bucket i \<Rightarrow> if i < length bks then Inr (bks ! i) else Inl undefined_behaviour
      | Hash_next a \<Rightarrow>
          (case h a of None \<Rightarrow> Inl undefined_behaviour | Some nd \<Rightarrow> Inr (hash_next nd)))"

definition store ::
  "('k, 'v) heap \<Rightarrow> addr option list \<Rightarrow> loc \<Rightarrow> addr option
     \<Rightarrow> error + ('k, 'v) heap \<times> addr option list" where
  "store h bks l v =
     (case l of
        Bucket i \<Rightarrow> if i < length bks then Inr (h, bks[i := v]) else Inl undefined_behaviour
      | Hash_next a \<Rightarrow>
          (case h a of
             None \<Rightarrow> Inl undefined_behaviour
           | Some nd \<Rightarrow> Inr (h(a \<mapsto> nd\<lparr>hash_next := v\<rparr>), bks)))"

text \<open>The loop of \<open>erase\<close> (lines 443-449).\<close>

partial_function (option) erase_loop ::
  "('k, 'v) heap \<Rightarrow> addr option list \<Rightarrow> addr \<Rightarrow> loc
     \<Rightarrow> (('k, 'v) heap \<times> addr option list) result" where
  "erase_loop h bks n cur_ptr =
     (case load h bks cur_ptr of
        Inl e \<Rightarrow> Some (Inl e)
      | Inr None \<Rightarrow> Some (Inr (h, bks))
      | Inr (Some c) \<Rightarrow>
          if c = n
          then (case h n of
                  None \<Rightarrow> Some (Inl undefined_behaviour)
                | Some nd \<Rightarrow> Some (store h bks cur_ptr (hash_next nd)))
          else erase_loop h bks n (Hash_next c))"

declare erase_loop.simps [code]

text \<open>
  Lines 438-439 of \<open>erase\<close>: the node is spliced out of the order list. The second
  statement reads \<open>node->next\<close> and \<open>node->prev\<close> again, after the first write.
\<close>

definition unlink :: "('k, 'v) heap \<Rightarrow> addr \<Rightarrow> error + ('k, 'v) heap" where
  "unlink h n =
     (case h n of
        None \<Rightarrow> Inl undefined_behaviour
      | Some nd \<Rightarrow>
          (case prev nd of
             None \<Rightarrow> Inl undefined_behaviour
           | Some p \<Rightarrow>
               (case h p of
                  None \<Rightarrow> Inl undefined_behaviour
                | Some pd \<Rightarrow>
                    (case (h(p \<mapsto> pd\<lparr>next := next nd\<rparr>)) n of
                       None \<Rightarrow> Inl undefined_behaviour
                     | Some nd1 \<Rightarrow>
                         (case next nd1 of
                            None \<Rightarrow> Inl undefined_behaviour
                          | Some q \<Rightarrow>
                              (case (h(p \<mapsto> pd\<lparr>next := next nd\<rparr>)) q of
                                 None \<Rightarrow> Inl undefined_behaviour
                               | Some qd \<Rightarrow>
                                   Inr (h(p \<mapsto> pd\<lparr>next := next nd\<rparr>,
                                          q \<mapsto> qd\<lparr>prev := prev nd1\<rparr>))))))))"

text \<open>Lines 441-449 of \<open>erase\<close>: the node is taken out of its bucket chain.\<close>

definition bucket_remove ::
  "('k \<Rightarrow> nat) \<Rightarrow> linked_hashmap \<Rightarrow> ('k, 'v) heap \<Rightarrow> addr
     \<Rightarrow> (('k, 'v) heap \<times> addr option list) result" where
  "bucket_remove hf m h n =
     (case h n of
        None \<Rightarrow> Some (Inl undefined_behaviour)
      | Some nd \<Rightarrow>
          (case data nd of
             None \<Rightarrow> Some (Inl undefined_behaviour)
           | Some kv \<Rightarrow>
               if bucket_count m = 0 \<or> \<not> hf (fst kv) mod bucket_count m < length (buckets m)
               then Some (Inl undefined_behaviour)
               else erase_loop h (buckets m) n (Bucket (hf (fst kv) mod bucket_count m))))"

text \<open>
  \<open>erase\<close> is the one mutating operation that throws, so its result carries the state
  in which it stops: the outcome (\<open>Inr ()\<close> for a normal return) and the state then.
  The state paired with \<open>undefined_behaviour\<close> carries no meaning.
\<close>

definition erase ::
  "('k \<Rightarrow> nat) \<Rightarrow> addr \<Rightarrow> iterator \<Rightarrow> ('k, 'v) state
     \<Rightarrow> ((error + unit) \<times> ('k, 'v) state) option" where
  "erase hf this pos s =
     (case maps s this of
        None \<Rightarrow> Some (Inl undefined_behaviour, s)
      | Some m \<Rightarrow>
          if map_ptr pos \<noteq> Some this \<or> node pos = Some (tail m) \<or> node pos = Some (head m)
          then Some (Inl invalid_iterator, s)
          else
            (case node pos of
               None \<Rightarrow> Some (Inl undefined_behaviour, s)
             | Some n \<Rightarrow>
                 (case unlink (nodes s) n of
                    Inl e \<Rightarrow> Some (Inl e, s)
                  | Inr h2 \<Rightarrow>
                      (case bucket_remove hf m h2 n of
                         None \<Rightarrow> None
                       | Some (Inl e) \<Rightarrow> Some (Inl e, s\<lparr>nodes := h2\<rparr>)
                       | Some (Inr (h3, bks)) \<Rightarrow>
                           Some (Inr (),
                                 s\<lparr>nodes := h3(n := None),
                                   maps := (maps s)(this \<mapsto>
                                     m\<lparr>buckets := bks,
                                       element_count :=
                                         (if element_count m = 0 then 18446744073709551615
                                          else element_count m - 1)\<rparr>)\<rparr>)))))"

text \<open>The loop of \<open>clear\<close> (lines 384-388): every interior node is deleted.\<close>

partial_function (option) clear_loop ::
  "addr \<Rightarrow> ('k, 'v) heap \<Rightarrow> addr option \<Rightarrow> ('k, 'v) heap result" where
  "clear_loop tln h cur =
     (if cur = Some tln then Some (Inr h)
      else
        (case cur of
           None \<Rightarrow> Some (Inl undefined_behaviour)
         | Some c \<Rightarrow>
             (case h c of
                None \<Rightarrow> Some (Inl undefined_behaviour)
              | Some nd \<Rightarrow> clear_loop tln (h(c := None)) (next nd))))"

declare clear_loop.simps [code]

definition clear :: "addr \<Rightarrow> ('k, 'v) state \<Rightarrow> ('k, 'v) state result" where
  "clear this s =
     (case maps s this of
        None \<Rightarrow> Some (Inl undefined_behaviour)
      | Some m \<Rightarrow>
          (case nodes s (head m) of
             None \<Rightarrow> Some (Inl undefined_behaviour)
           | Some hdn \<Rightarrow>
               (case clear_loop (tail m) (nodes s) (next hdn) of
                  None \<Rightarrow> None
                | Some (Inl e) \<Rightarrow> Some (Inl e)
                | Some (Inr h1) \<Rightarrow>
                    (case h1 (head m) of
                       None \<Rightarrow> Some (Inl undefined_behaviour)
                     | Some hd1 \<Rightarrow>
                         (let h2 = h1(head m \<mapsto> hd1\<lparr>next := Some (tail m)\<rparr>) in
                          case h2 (tail m) of
                            None \<Rightarrow> Some (Inl undefined_behaviour)
                          | Some tl1 \<Rightarrow>
                              if length (buckets m) < bucket_count m
                              then Some (Inl undefined_behaviour)
                              else
                                Some (Inr (s\<lparr>nodes := h2(tail m \<mapsto> tl1\<lparr>prev := Some (head m)\<rparr>),
                                             maps := (maps s)(this \<mapsto>
                                               m\<lparr>element_count := 0,
                                                 buckets := replicate (bucket_count m) None
                                                            @ drop (bucket_count m) (buckets m)\<rparr>)\<rparr>)))))))"

text \<open>
  The loop shared by the copy constructor and \<open>operator=\<close> (lines 269-273, 283-287):
  every entry of \<open>other\<close>, in list order, is handed to \<open>insert\<close> of \<open>this\<close>.
\<close>

partial_function (option) copy_loop ::
  "('k \<Rightarrow> nat) \<Rightarrow> addr \<Rightarrow> addr \<Rightarrow> ('k, 'v) state \<Rightarrow> addr option \<Rightarrow> ('k, 'v) state result" where
  "copy_loop hf this other s cur =
     (case maps s other of
        None \<Rightarrow> Some (Inl undefined_behaviour)
      | Some om \<Rightarrow>
          if cur = Some (tail om) then Some (Inr s)
          else
            (case cur of
               None \<Rightarrow> Some (Inl undefined_behaviour)
             | Some c \<Rightarrow>
                 (case nodes s c of
                    None \<Rightarrow> Some (Inl undefined_behaviour)
                  | Some nd \<Rightarrow>
                      (case data nd of
                         None \<Rightarrow> Some (Inl undefined_behaviour)
                       | Some kv \<Rightarrow>
                           (case insert_lhm hf this kv s of
                              None \<Rightarrow> None
                            | Some (Inl e) \<Rightarrow> Some (Inl e)
                            | Some (Inr (r, s1)) \<Rightarrow>
                                (case nodes s1 c of
                                   None \<Rightarrow> Some (Inl undefined_behaviour)
                                 | Some nd1 \<Rightarrow> copy_loop hf this other s1 (next nd1)))))))"

declare copy_loop.simps [code]

text \<open>The copy constructor, building the new container at address \<open>this\<close>.\<close>

definition copy_construct ::
  "('k \<Rightarrow> nat) \<Rightarrow> addr \<Rightarrow> addr \<Rightarrow> ('k, 'v) state \<Rightarrow> ('k, 'v) state result" where
  "copy_construct hf this other s =
     (let (h, s1) = new_Node None s;
          (t, s2) = new_Node None s1;
          hp = (nodes s2)(h \<mapsto> \<lparr>data = None, prev = None, next = Some t, hash_next = None\<rparr>,
                          t \<mapsto> \<lparr>data = None, prev = Some h, next = None, hash_next = None\<rparr>)
      in case maps s2 other of
           None \<Rightarrow> Some (Inl undefined_behaviour)
         | Some om \<Rightarrow>
             (let s3 = s2\<lparr>nodes := hp,
                         maps := (maps s2)(this \<mapsto> init_buckets (bucket_count om)
                           \<lparr>head = h, tail = t, buckets = [], bucket_count = 0,
                            element_count = 0\<rparr>)\<rparr>
              in case nodes s3 (head om) of
                   None \<Rightarrow> Some (Inl undefined_behaviour)
                 | Some ohd \<Rightarrow> copy_loop hf this other s3 (next ohd)))"

text \<open>\<open>operator=\<close>.\<close>

definition assign ::
  "('k \<Rightarrow> nat) \<Rightarrow> addr \<Rightarrow> addr \<Rightarrow> ('k, 'v) state \<Rightarrow> ('k, 'v) state result" where
  "assign hf this other s =
     (if this = other then Some (Inr s)
      else
        (case clear this s of
           None \<Rightarrow> None
         | Some (Inl e) \<Rightarrow> Some (Inl e)
         | Some (Inr s1) \<Rightarrow>
             (case maps s1 other of
                None \<Rightarrow> Some (Inl undefined_behaviour)
              | Some om \<Rightarrow>
                  (case nodes s1 (head om) of
                     None \<Rightarrow> Some (Inl undefined_behaviour)
                   | Some ohd \<Rightarrow> copy_loop hf this other s1 (next ohd)))))"

text \<open>
  \<open>at\<close>, in its mutable and its \<open>const\<close> variant (the two bodies are the same), and the
  \<open>const\<close> \<open>operator[]\<close>, which calls \<open>at\<close>. The returned \<open>T &\<close> is modelled by the address
  of the node whose entry holds the value, together with the value read through it.
\<close>

definition at ::
  "('k \<Rightarrow> nat) \<Rightarrow> addr \<Rightarrow> 'k \<Rightarrow> ('k, 'v) state \<Rightarrow> (addr \<times> 'v) result" where
  "at hf this key s =
     (case find_node hf this key s of
        None \<Rightarrow> None
      | Some (Inl e) \<Rightarrow> Some (Inl e)
      | Some (Inr None) \<Rightarrow> Some (Inl index_out_of_bound)
      | Some (Inr (Some n)) \<Rightarrow>
          (case nodes s n of
             None \<Rightarrow> Some (Inl undefined_behaviour)
           | Some nd \<Rightarrow>
               (case data nd of
                  None \<Rightarrow> Some (Inl undefined_behaviour)
                | Some kv \<Rightarrow> Some (Inr (n, snd kv)))))"

definition at_const ::
  "('k \<Rightarrow> nat) \<Rightarrow> addr \<Rightarrow> 'k \<Rightarrow> ('k, 'v) state \<Rightarrow> (addr \<times> 'v) result" where
  "at_const hf this key s =
     (case find_node hf this key s of
        None \<Rightarrow> None
      | Some (Inl e) \<Rightarrow> Some (Inl e)
      | Some (Inr None) \<Rightarrow> Some (Inl index_out_of_bound)
      | Some (Inr (Some n)) \<Rightarrow>
          (case nodes s n of
             None \<Rightarrow> Some (Inl undefined_behaviour)
           | Some nd \<Rightarrow>
               (case data nd of
                  None \<Rightarrow> Some (Inl undefined_behaviour)
                | Some kv \<Rightarrow> Some (Inr (n, snd kv)))))"

definition index_const ::
  "('k \<Rightarrow> nat) \<Rightarrow> addr \<Rightarrow> 'k \<Rightarrow> ('k, 'v) state \<Rightarrow> (addr \<times> 'v) result" where
  "index_const hf this key s = at_const hf this key s"

text \<open>\<open>begin\<close>/\<open>cbegin\<close> and \<open>end\<close>/\<open>cend\<close>.\<close>

definition begin_lhm :: "addr \<Rightarrow> ('k, 'v) state \<Rightarrow> error + iterator" where
  "begin_lhm this s =
     (case maps s this of
        None \<Rightarrow> Inl undefined_behaviour
      | Some m \<Rightarrow>
          (case nodes s (head m) of
             None \<Rightarrow> Inl undefined_behaviour
           | Some hdn \<Rightarrow> Inr \<lparr>node = next hdn, map_ptr = Some this\<rparr>))"

definition end_lhm :: "addr \<Rightarrow> ('k, 'v) state \<Rightarrow> error + iterator" where
  "end_lhm this s =
     (case maps s this of
        None \<Rightarrow> Inl undefined_behaviour
      | Some m \<Rightarrow> Inr \<lparr>node = Some (tail m), map_ptr = Some this\<rparr>)"

definition size_lhm :: "addr \<Rightarrow> ('k, 'v) state \<Rightarrow> error + nat" where
  "size_lhm this s =
     (case maps s this of None \<Rightarrow> Inl undefined_behaviour | Some m \<Rightarrow> Inr (element_count m))"

definition empty_lhm :: "addr \<Rightarrow> ('k, 'v) state \<Rightarrow> error + bool" where
  "empty_lhm this s =
     (case maps s this of None \<Rightarrow> Inl undefined_behaviour | Some m \<Rightarrow> Inr (element_count m = 0))"

definition count_lhm :: "('k \<Rightarrow> nat) \<Rightarrow> addr \<Rightarrow> 'k \<Rightarrow> ('k, 'v) state \<Rightarrow> nat result" where
  "count_lhm hf this key s =
     (case find_node hf this key s of
        None \<Rightarrow> None
      | Some (Inl e) \<Rightarrow> Some (Inl e)
      | Some (Inr None) \<Rightarrow> Some (Inr 0)
      | Some (Inr (Some n)) \<Rightarrow> Some (Inr 1))"

definition find_lhm :: "('k \<Rightarrow> nat) \<Rightarrow> addr \<Rightarrow> 'k \<Rightarrow> ('k, 'v) state \<Rightarrow> iterator result" where
  "find_lhm hf this key s =
     (case find_node hf this key s of
        None \<Rightarrow> None
      | Some (Inl e) \<Rightarrow> Some (Inl e)
      | Some (Inr (Some n)) \<Rightarrow> Some (Inr \<lparr>node = Some n, map_ptr = Some this\<rparr>)
      | Some (Inr None) \<Rightarrow> Some (case end_lhm this s of Inl e \<Rightarrow> Inl e | Inr it \<Rightarrow> Inr it))"

section \<open>Iterating a container\<close>

text \<open>
  The client loop \<^verbatim>\<open>for (it = m.begin(); it != m.end(); ++it) out.push_back(*it);\<close>,
  written with the iterator operators above. \<open>acc\<close> holds the entries visited so far,
  last one first.
\<close>

partial_function (option) traverse_loop ::
  "('k, 'v) state \<Rightarrow> iterator \<Rightarrow> iterator \<Rightarrow> ('k \<times> 'v) list \<Rightarrow> ('k \<times> 'v) list result" where
  "traverse_loop s it e acc =
     (if iter_neq it e
      then (case iter_deref s it of
              Inl er \<Rightarrow> Some (Inl er)
            | Inr kv \<Rightarrow>
                (case iter_inc s it of
                   Inl er \<Rightarrow> Some (Inl er)
                 | Inr it' \<Rightarrow> traverse_loop s it' e (kv # acc)))
      else Some (Inr (rev acc)))"

declare traverse_loop.simps [code]

definition traverse :: "addr \<Rightarrow> ('k, 'v) state \<Rightarrow> ('k \<times> 'v) list result" where
  "traverse this s =
     (case begin_lhm this s of
        Inl e \<Rightarrow> Some (Inl e)
      | Inr b \<Rightarrow>
          (case end_lhm this s of
             Inl e \<Rightarrow> Some (Inl e)
           | Inr e \<Rightarrow> traverse_loop s b e []))"

section \<open>Concrete states\<close>

text \<open>
  \<open>empty_state\<close> has no object at all. \<open>one_map\<close> holds a container at address 100 with
  the single entry \<open>(1, 10)\<close> (sentinels at 0 and 1, the entry's node at 2); \<open>two_maps\<close>
  has in addition an empty container at address 200 (sentinels at 3 and 4). Keys are
  hashed by the identity.
\<close>

definition empty_state :: "(nat, nat) state" where
  "empty_state = \<lparr>nodes = Map.empty, maps = Map.empty, fresh = 0\<rparr>"

definition one_map :: "(nat, nat) state" where
  "one_map =
     (case insert_lhm id 100 (1, 10) (construct 100 empty_state) of
        Some (Inr (r, s)) \<Rightarrow> s
      | _ \<Rightarrow> empty_state)"

definition two_maps :: "(nat, nat) state" where
  "two_maps = construct 200 one_map"

definition nxt :: "('k, 'v) heap \<Rightarrow> addr \<Rightarrow> addr option" where
  "nxt h a = (case h a of None \<Rightarrow> None | Some nd \<Rightarrow> next nd)"

definition prv :: "('k, 'v) heap \<Rightarrow> addr \<Rightarrow> addr option" where
  "prv h a = (case h a of None \<Rightarrow> None | Some nd \<Rightarrow> prev nd)"

definition hnx :: "('k, 'v) heap \<Rightarrow> addr \<Rightarrow> addr option" where
  "hnx h a = (case h a of None \<Rightarrow> None | Some nd \<Rightarrow> hash_next nd)"

definition ent :: "('k, 'v) heap \<Rightarrow> addr \<Rightarrow> ('k \<times> 'v) option" where
  "ent h a = (case h a of None \<Rightarrow> None | Some nd \<Rightarrow> data nd)"

definition key_at :: "('k, 'v) heap \<Rightarrow> addr \<Rightarrow> 'k option" where
  "key_at h a = map_option fst (ent h a)"

fun links :: "(addr \<Rightarrow> addr option) \<Rightarrow> (addr \<Rightarrow> addr option) \<Rightarrow> addr list \<Rightarrow> bool" where
  "links nx pv (a # b # r) = (nx a = Some b \<and> pv b = Some a \<and> links nx pv (b # r))"
| "links nx pv [a] = True"
| "links nx pv [] = True"

fun chain :: "(addr \<Rightarrow> addr option) \<Rightarrow> addr option \<Rightarrow> addr list \<Rightarrow> bool" where
  "chain hn p [] = (p = None)"
| "chain hn p (c # cs) = (p = Some c \<and> chain hn (hn c) cs)"

definition slot ::
  "('k \<Rightarrow> nat) \<Rightarrow> nat \<Rightarrow> (addr \<Rightarrow> ('k \<times> 'v) option) \<Rightarrow> addr \<Rightarrow> nat option" where
  "slot hf bc en n = (case en n of None \<Rightarrow> None | Some kv \<Rightarrow> Some (hf (fst kv) mod bc))"

definition path :: "linked_hashmap \<Rightarrow> addr list \<Rightarrow> addr list" where
  "path m ns = head m # ns @ [tail m]"

definition wf_lists ::
  "('k \<Rightarrow> nat) \<Rightarrow> linked_hashmap \<Rightarrow> (addr \<Rightarrow> addr option) \<Rightarrow> (addr \<Rightarrow> addr option)
     \<Rightarrow> (addr \<Rightarrow> addr option) \<Rightarrow> (addr \<Rightarrow> ('k \<times> 'v) option)
     \<Rightarrow> addr list \<Rightarrow> ('k \<times> 'v) list \<Rightarrow> bool" where
  "wf_lists hf m nx pv hn en ns es =
     (distinct (path m ns)
      \<and> links nx pv (path m ns)
      \<and> en (head m) = None \<and> en (tail m) = None
      \<and> map en ns = map Some es
      \<and> distinct (map fst es)
      \<and> 0 < bucket_count m \<and> length (buckets m) = bucket_count m
      \<and> (\<forall>i<bucket_count m. \<exists>cs. chain hn (buckets m ! i) cs
            \<and> set cs = {n \<in> set ns. slot hf (bucket_count m) en n = Some i})
      \<and> element_count m = length ns)"

definition lhm_inv ::
  "('k \<Rightarrow> nat) \<Rightarrow> ('k, 'v) state \<Rightarrow> addr \<Rightarrow> addr list \<Rightarrow> ('k \<times> 'v) list \<Rightarrow> bool" where
  "lhm_inv hf s this ns es =
     (case maps s this of
        None \<Rightarrow> False
      | Some m \<Rightarrow>
          wf_lists hf m (nxt (nodes s)) (prv (nodes s)) (hnx (nodes s)) (ent (nodes s)) ns es
          \<and> (\<forall>n\<in>set (path m ns). n < fresh s))"

definition frame :: "('k, 'v) state \<Rightarrow> ('k, 'v) state \<Rightarrow> addr \<Rightarrow> addr set \<Rightarrow> bool" where
  "frame s s' this A =
     (fresh s \<le> fresh s'
      \<and> (\<forall>b. b \<noteq> this \<longrightarrow> maps s' b = maps s b)
      \<and> (\<forall>a. a \<notin> A \<and> a < fresh s \<longrightarrow> nodes s' a = nodes s a))"

definition lhm_nodes :: "('k, 'v) state \<Rightarrow> addr \<Rightarrow> addr list \<Rightarrow> addr set" where
  "lhm_nodes s this ns = (case maps s this of None \<Rightarrow> {} | Some m \<Rightarrow> set (path m ns))"

fun fwd :: "(addr \<Rightarrow> addr option) \<Rightarrow> addr option \<Rightarrow> addr list \<Rightarrow> addr \<Rightarrow> bool" where
  "fwd nx p [] t = (p = Some t)"
| "fwd nx p (a # as) t = (p = Some a \<and> fwd nx (nx a) as t)"

definition same_but_hash :: "('k, 'v) heap \<Rightarrow> ('k, 'v) heap \<Rightarrow> bool" where
  "same_but_hash h h' =
     (\<forall>a. map_option (\<lambda>nd. nd\<lparr>hash_next := None\<rparr>) (h' a)
          = map_option (\<lambda>nd. nd\<lparr>hash_next := None\<rparr>) (h a))"

datatype ('k, 'v) op = Insert 'k 'v | Erase 'k

fun run_op ::
  "('k \<Rightarrow> nat) \<Rightarrow> addr \<Rightarrow> ('k, 'v) op \<Rightarrow> ('k, 'v) state \<Rightarrow> ('k, 'v) state result" where
  "run_op hf this (Insert k v) s =
     (case insert_lhm hf this (k, v) s of
        None \<Rightarrow> None
      | Some (Inl e) \<Rightarrow> Some (Inl e)
      | Some (Inr (r, s')) \<Rightarrow> Some (Inr s'))"
| "run_op hf this (Erase k) s =
     (case find_lhm hf this k s of
        None \<Rightarrow> None
      | Some (Inl e) \<Rightarrow> Some (Inl e)
      | Some (Inr it) \<Rightarrow>
          (case erase hf this it s of
             None \<Rightarrow> None
           | Some (Inr u, s') \<Rightarrow> Some (Inr s')
           | Some (Inl e, s') \<Rightarrow>
               if e = invalid_iterator then Some (Inr s') else Some (Inl e)))"

fun run_ops ::
  "('k \<Rightarrow> nat) \<Rightarrow> addr \<Rightarrow> ('k, 'v) op list \<Rightarrow> ('k, 'v) state \<Rightarrow> ('k, 'v) state result" where
  "run_ops hf this [] s = Some (Inr s)"
| "run_ops hf this (x # xs) s =
     (case run_op hf this x s of
        None \<Rightarrow> None
      | Some (Inl e) \<Rightarrow> Some (Inl e)
      | Some (Inr s') \<Rightarrow> run_ops hf this xs s')"

fun spec_op :: "('k, 'v) op \<Rightarrow> ('k \<times> 'v) list \<Rightarrow> ('k \<times> 'v) list" where
  "spec_op (Insert k v) es = (if k \<in> set (map fst es) then es else es @ [(k, v)])"
| "spec_op (Erase k) es = filter (\<lambda>kv. fst kv \<noteq> k) es"

fun spec_ops :: "('k, 'v) op list \<Rightarrow> ('k \<times> 'v) list \<Rightarrow> ('k \<times> 'v) list" where
  "spec_ops [] es = es"
| "spec_ops (x # xs) es = spec_ops xs (spec_op x es)"

definition thirteen_inserts :: "(nat, nat) op list" where
  "thirteen_inserts = map (\<lambda>i. Insert i i) [0..<13]"

definition load_factor_bound :: "addr \<Rightarrow> ('k, 'v) state \<Rightarrow> bool" where
  "load_factor_bound this s =
     (case maps s this of
        None \<Rightarrow> False
      | Some m \<Rightarrow> 4 * element_count m \<le> 3 * bucket_count m)"

section \<open>Which positions are rejected\<close>

lemma erase_loop_error:
  assumes "erase_loop h bks n l = Some r"
  shows "\<forall>e. r = Inl e \<longrightarrow> e = undefined_behaviour"
  by (rule erase_loop.raw_induct[OF _ assms])
     (auto simp: load_def store_def split: sum.splits option.splits if_splits loc.splits)

lemma erase_loop_no_throw: "erase_loop h bks n l \<noteq> Some (Inl invalid_iterator)"
  using erase_loop_error[of h bks n l "Inl invalid_iterator"] by auto

lemma unlink_no_throw: "unlink h n \<noteq> Inl invalid_iterator"
  by (simp add: unlink_def split: option.split)

lemma bucket_remove_no_throw: "bucket_remove hf m h n \<noteq> Some (Inl invalid_iterator)"
  by (simp add: bucket_remove_def erase_loop_no_throw split: option.split)

lemma erase_past_guard:
  assumes "maps s this = Some m" "map_ptr pos = Some this" "node pos \<noteq> Some (tail m)"
    "node pos \<noteq> Some (head m)"
  shows "erase hf this pos s \<noteq> Some (Inl invalid_iterator, s')"
  using assms unlink_no_throw[of "nodes s"] bucket_remove_no_throw[of hf m]
  by (auto simp add: erase_def split: option.split sum.split prod.split)

lemma erase_throws_iff:
  "(\<exists>s'. erase hf this pos s = Some (Inl invalid_iterator, s')) \<longleftrightarrow>
   (\<exists>m. maps s this = Some m \<and>
        (map_ptr pos \<noteq> Some this \<or> node pos = Some (tail m) \<or> node pos = Some (head m)))"
proof (cases "maps s this")
  case None
  then show ?thesis by (simp add: erase_def)
next
  case (Some m)
  show ?thesis
  proof (cases "map_ptr pos \<noteq> Some this \<or> node pos = Some (tail m) \<or> node pos = Some (head m)")
    case True
    with Some show ?thesis by (auto simp add: erase_def)
  next
    case False
    with Some erase_past_guard[of s this m pos hf] show ?thesis by auto
  qed
qed

lemma erase_throw_unchanged:
  assumes "erase hf this pos s = Some (Inl invalid_iterator, s')"
  shows "s' = s"
proof (cases "maps s this")
  case None
  with assms show ?thesis by (simp add: erase_def)
next
  case (Some m)
  show ?thesis
  proof (cases "map_ptr pos \<noteq> Some this \<or> node pos = Some (tail m) \<or> node pos = Some (head m)")
    case True
    with Some assms show ?thesis by (auto simp add: erase_def)
  next
    case False
    with Some erase_past_guard[of s this m pos hf s'] assms show ?thesis by auto
  qed
qed

lemma iter_inc_throws_iff:
  "iter_inc s it = Inl invalid_iterator \<longleftrightarrow>
   (node it = None \<or>
    (\<exists>a m. map_ptr it = Some a \<and> maps s a = Some m \<and> node it = Some (tail m)))"
  by (auto simp: iter_inc_def split: option.splits)

lemma iter_dec_throws_iff:
  "iter_dec s it = Inl invalid_iterator \<longleftrightarrow>
   (node it = None \<or>
    (\<exists>n nd a m. node it = Some n \<and> nodes s n = Some nd \<and> map_ptr it = Some a \<and>
       maps s a = Some m \<and> prev nd = Some (head m)))"
  by (auto simp: iter_dec_def split: option.splits)

lemmas run_simps =
  empty_state_def construct_def new_Node_def init_buckets_def INITIAL_BUCKET_COUNT_def
  insert_lhm_def find_node_def find_node_loop.simps check_and_rehash_def insert_new_def
  append_node_def bucket_push_def

lemma one_map_nodes:
  "nodes one_map 0 = Some \<lparr>data = None, prev = None, next = Some 2, hash_next = None\<rparr>"
  "nodes one_map 1 = Some \<lparr>data = None, prev = Some 2, next = None, hash_next = None\<rparr>"
  "nodes one_map 2 = Some \<lparr>data = Some (1, 10), prev = Some 0, next = Some 1, hash_next = None\<rparr>"
  "fresh one_map = 3"
  by (simp_all add: one_map_def run_simps)

lemma one_map_maps:
  "map_option head (maps one_map 100) = Some 0"
  "map_option tail (maps one_map 100) = Some 1"
  by (simp_all add: one_map_def run_simps)

lemma two_maps_nodes:
  "nodes two_maps 0 = Some \<lparr>data = None, prev = None, next = Some 2, hash_next = None\<rparr>"
  "nodes two_maps 1 = Some \<lparr>data = None, prev = Some 2, next = None, hash_next = None\<rparr>"
  "nodes two_maps 2 = Some \<lparr>data = Some (1, 10), prev = Some 0, next = Some 1, hash_next = None\<rparr>"
  using one_map_nodes by (simp_all add: two_maps_def construct_def new_Node_def)

lemma two_maps_maps:
  "map_option head (maps two_maps 100) = Some 0"
  "map_option tail (maps two_maps 100) = Some 1"
  "map_option head (maps two_maps 200) = Some 3"
  "map_option tail (maps two_maps 200) = Some 4"
  using one_map_maps one_map_nodes(4)
  by (simp_all add: two_maps_def construct_def new_Node_def init_buckets_def)

section \<open>The null position\<close>

text \<open>
  C10. On a default-constructed position every increment and decrement, prefix or
  postfix, throws \<open>invalid_iterator\<close> in every state: the null test comes first and no
  node or container is read. Two default-constructed positions are equal. A position
  returned by \<open>begin\<close>, \<open>end\<close>, \<open>find\<close> or \<open>insert\<close> of a container, and any position reached
  from one by advancing, carries that container's address, so it differs from the
  default-constructed position.
\<close>

theorem C10_null_position:
  "iter_inc s iterator_default = Inl invalid_iterator
   \<and> iter_post_inc s iterator_default = Inl invalid_iterator
   \<and> iter_dec s iterator_default = Inl invalid_iterator
   \<and> iter_post_dec s iterator_default = Inl invalid_iterator
   \<and> iter_eq iterator_default iterator_default
   \<and> \<not> iter_neq iterator_default iterator_default
   \<and> (\<forall>it. begin_lhm this s = Inr it \<or> end_lhm this s = Inr it
             \<or> find_lhm hf this key s = Some (Inr it)
             \<or> (\<exists>b s'. insert_lhm hf this val s = Some (Inr ((it, b), s')))
          \<longrightarrow> map_ptr it = Some this \<and> \<not> iter_eq iterator_default it
              \<and> \<not> iter_eq it iterator_default \<and> iter_neq it iterator_default)
   \<and> (\<forall>it it'. map_ptr it \<noteq> None \<and> (iter_inc s it = Inr it' \<or> iter_dec s it = Inr it')
          \<longrightarrow> map_ptr it' = map_ptr it \<and> \<not> iter_eq iterator_default it'
              \<and> \<not> iter_eq it' iterator_default)"
proof -
  have a: "map_ptr it = Some this"
    if "begin_lhm this s = Inr it \<or> end_lhm this s = Inr it
        \<or> find_lhm hf this key s = Some (Inr it)
        \<or> (\<exists>b s'. insert_lhm hf this val s = Some (Inr ((it, b), s')))" for it
    using that
    by (auto simp: begin_lhm_def end_lhm_def find_lhm_def insert_lhm_def insert_new_def
          new_Node_def split: option.splits sum.splits prod.splits)
  have b: "map_ptr it' = map_ptr it"
    if "iter_inc s it = Inr it' \<or> iter_dec s it = Inr it'" for it it'
    using that by (auto simp: iter_inc_def iter_dec_def split: option.splits if_splits)
  have c: "iter_inc s iterator_default = Inl invalid_iterator"
    "iter_post_inc s iterator_default = Inl invalid_iterator"
    "iter_dec s iterator_default = Inl invalid_iterator"
    "iter_post_dec s iterator_default = Inl invalid_iterator"
    "iter_eq iterator_default iterator_default"
    "\<not> iter_neq iterator_default iterator_default"
    by (simp_all add: iter_inc_def iter_dec_def iter_post_inc_def iter_post_dec_def
          iterator_default_def iter_eq_def iter_neq_def)
  have d: "\<not> iter_eq iterator_default it \<and> \<not> iter_eq it iterator_default
           \<and> iter_neq it iterator_default"
    if "map_ptr it \<noteq> None" for it
    using that by (auto simp: iterator_default_def iter_eq_def iter_neq_def)
  have e: "\<forall>it. begin_lhm this s = Inr it \<or> end_lhm this s = Inr it
             \<or> find_lhm hf this key s = Some (Inr it)
             \<or> (\<exists>b s'. insert_lhm hf this val s = Some (Inr ((it, b), s')))
          \<longrightarrow> map_ptr it = Some this \<and> \<not> iter_eq iterator_default it
              \<and> \<not> iter_eq it iterator_default \<and> iter_neq it iterator_default"
  proof (intro allI impI)
    fix it
    assume h: "begin_lhm this s = Inr it \<or> end_lhm this s = Inr it
             \<or> find_lhm hf this key s = Some (Inr it)
             \<or> (\<exists>b s'. insert_lhm hf this val s = Some (Inr ((it, b), s')))"
    have "map_ptr it = Some this" by (rule a[OF h])
    then show "map_ptr it = Some this \<and> \<not> iter_eq iterator_default it
              \<and> \<not> iter_eq it iterator_default \<and> iter_neq it iterator_default"
      using d[of it] by simp
  qed
  have f: "\<forall>it it'. map_ptr it \<noteq> None \<and> (iter_inc s it = Inr it' \<or> iter_dec s it = Inr it')
          \<longrightarrow> map_ptr it' = map_ptr it \<and> \<not> iter_eq iterator_default it'
              \<and> \<not> iter_eq it' iterator_default"
  proof (intro allI impI)
    fix it it'
    assume h: "map_ptr it \<noteq> None \<and> (iter_inc s it = Inr it' \<or> iter_dec s it = Inr it')"
    then have "map_ptr it' = map_ptr it" using b[of it it'] by simp
    then show "map_ptr it' = map_ptr it \<and> \<not> iter_eq iterator_default it'
              \<and> \<not> iter_eq it' iterator_default"
      using d[of it'] h by simp
  qed
  show ?thesis
    using c e f by (intro conjI)
qed

theorem C10_null_position_witness:
  "begin_lhm 100 two_maps = Inr \<lparr>node = Some 2, map_ptr = Some 100\<rparr>
   \<and> \<not> iter_eq iterator_default \<lparr>node = Some 2, map_ptr = Some 100\<rparr>
   \<and> iter_inc two_maps \<lparr>node = Some 2, map_ptr = Some 100\<rparr>
       = Inr \<lparr>node = Some 1, map_ptr = Some 100\<rparr>
   \<and> \<not> iter_eq iterator_default \<lparr>node = Some 1, map_ptr = Some 100\<rparr>"
proof -
  have 1: "begin_lhm 100 two_maps = Inr \<lparr>node = Some 2, map_ptr = Some 100\<rparr>"
    using two_maps_nodes two_maps_maps
    by (auto simp add: begin_lhm_def split: option.splits)
  have 2: "iter_inc two_maps \<lparr>node = Some 2, map_ptr = Some 100\<rparr>
       = Inr \<lparr>node = Some 1, map_ptr = Some 100\<rparr>"
    using two_maps_nodes two_maps_maps
    by (auto simp add: iter_inc_def split: option.splits)
  show ?thesis
    using 1 2 C10_null_position[of two_maps 100 id 1 "(1, 10)"]
    by (metis iterator.select_convs(2) option.distinct(1))
qed

lemma key_at_ent: "ent h a = Some kv \<Longrightarrow> key_at h a = Some (fst kv)"
  by (simp add: key_at_def)

lemma slot_Some: "en n = Some kv \<Longrightarrow> slot hf bc en n = Some (hf (fst kv) mod bc)"
  by (simp add: slot_def)

lemma slot_SomeD: "slot hf bc en n = Some i \<Longrightarrow> \<exists>kv. en n = Some kv \<and> i = hf (fst kv) mod bc"
  by (auto simp: slot_def split: option.splits)

lemma slot_upd_other: "x \<noteq> n \<Longrightarrow> slot hf bc (en(n := e)) x = slot hf bc en x"
  by (simp add: slot_def)

lemma slot_cong: "en' n = en n \<Longrightarrow> slot hf bc en' n = slot hf bc en n"
  by (simp add: slot_def)

lemma find_node_loop_chain:
  "chain (hnx h) p cs \<Longrightarrow> \<forall>c\<in>set cs. ent h c \<noteq> None \<Longrightarrow>
   find_node_loop h key p = Some (Inr (List.find (\<lambda>c. key_at h c = Some key) cs))"
proof (induction cs arbitrary: p)
  case Nil
  then show ?case by (simp add: find_node_loop.simps)
next
  case (Cons c cs)
  from Cons.prems have p: "p = Some c" and ch: "chain (hnx h) (hnx h c) cs" by auto
  from Cons.prems obtain nd kv where nd: "h c = Some nd" "data nd = Some kv"
    by (auto simp: ent_def split: option.splits)
  have "hnx h c = hash_next nd" using nd by (simp add: hnx_def)
  with ch have ch': "chain (hnx h) (hash_next nd) cs" by simp
  have ih: "find_node_loop h key (hash_next nd) =
      Some (Inr (List.find (\<lambda>c. key_at h c = Some key) cs))"
    using Cons.IH[OF ch'] Cons.prems(2) by simp
  show ?case
    proof (cases "fst kv = key")
    case True
    then have "key_at h c = Some key" using nd by (simp add: key_at_def ent_def)
    then show ?thesis using p nd True by (subst find_node_loop.simps) simp
  next
    case False
    then have "key_at h c \<noteq> Some key" using nd by (simp add: key_at_def ent_def)
    then show ?thesis using p nd False ih by (subst find_node_loop.simps) simp
  qed
qed

lemma map_of_zip_nth:
  "length ks = length ns \<Longrightarrow> distinct ks \<Longrightarrow> i < length ks \<Longrightarrow>
   map_of (zip ks ns) (ks ! i) = Some (ns ! i)"
  by (simp add: map_of_zip_nth)

lemma ent_nth:
  assumes "map (ent h) ns = map Some es" "i < length ns"
  shows "ent h (ns ! i) = Some (es ! i)"
proof -
  have "map (ent h) ns ! i = map Some es ! i" using assms by simp
  moreover have "length es = length ns" using assms(1) by (metis length_map)
  ultimately show ?thesis using assms(2) by simp
qed

lemma find_node_inv:
  assumes "lhm_inv hf s this ns es"
  shows "find_node hf this key s = Some (Inr (map_of (zip (map fst es) ns) key))"
proof -
  from assms obtain m where m: "maps s this = Some m" by (auto simp: lhm_inv_def split: option.splits)
  let ?h = "nodes s" and ?bc = "bucket_count m"
  let ?i = "hf key mod ?bc"
  from assms m have bc: "0 < ?bc" "length (buckets m) = ?bc"
    and es: "map (ent ?h) ns = map Some es" and dk: "distinct (map fst es)"
    and bk: "\<forall>i<?bc. \<exists>cs. chain (hnx ?h) (buckets m ! i) cs
                \<and> set cs = {n \<in> set ns. slot hf ?bc (ent ?h) n = Some i}"
    by (auto simp: lhm_inv_def wf_lists_def)
  have len: "length es = length ns" using es by (metis length_map)
  from bc have i: "?i < ?bc" by simp
  with bk obtain cs where cs: "chain (hnx ?h) (buckets m ! ?i) cs"
    "set cs = {n \<in> set ns. slot hf ?bc (ent ?h) n = Some ?i}" by blast
  have ex: "\<forall>c\<in>set cs. ent ?h c \<noteq> None"
    using cs(2) by (auto dest: slot_SomeD)
  have fl: "find_node_loop ?h key (buckets m ! ?i) =
     Some (Inr (List.find (\<lambda>c. key_at ?h c = Some key) cs))"
    by (rule find_node_loop_chain[OF cs(1) ex])
  have "List.find (\<lambda>c. key_at ?h c = Some key) cs = map_of (zip (map fst es) ns) key"
  proof (cases "key \<in> set (map fst es)")
    case False
    have "\<not> (\<exists>c\<in>set cs. key_at ?h c = Some key)"
    proof
      assume "\<exists>c\<in>set cs. key_at ?h c = Some key"
      then obtain c where c: "c \<in> set ns" "key_at ?h c = Some key"
        using cs(2) by (auto dest: slot_SomeD)
      then obtain j where j: "j < length ns" "ns ! j = c" by (auto simp: in_set_conv_nth)
      with ent_nth[OF es j(1)] c have "fst (es ! j) = key" by (auto simp: key_at_def)
      with j len False show False by (metis length_map nth_map nth_mem)
    qed
    then have "List.find (\<lambda>c. key_at ?h c = Some key) cs = None"
      by (simp add: find_None_iff)
    moreover have "map fst (zip (map fst es) ns) = map fst es"
      using len by (simp add: map_fst_zip)
    then have "map_of (zip (map fst es) ns) key = None"
      using False by (metis map_of_eq_None_iff set_map)
    ultimately show ?thesis by simp
  next
    case True
    then obtain j where j: "j < length es" "fst (es ! j) = key"
      by (auto simp: in_set_conv_nth)
    have ej: "ent ?h (ns ! j) = Some (es ! j)" using ent_nth[OF es] j len by simp
    then have "slot hf ?bc (ent ?h) (ns ! j) = Some ?i" using j by (simp add: slot_Some)
    then have mem: "ns ! j \<in> set cs" using cs(2) j len by simp
    have uniq: "c = ns ! j" if "c \<in> set cs" "key_at ?h c = Some key" for c
    proof -
      from that cs(2) obtain l where l: "l < length ns" "ns ! l = c" by (auto simp: in_set_conv_nth)
      with ent_nth[OF es l(1)] that have "fst (es ! l) = key" by (auto simp: key_at_def)
      with j l len dk have "l = j"
        by (metis distinct_conv_nth length_map nth_map)
      with l show ?thesis by simp
    qed
    from mem key_at_ent[OF ej] j have "\<exists>c\<in>set cs. key_at ?h c = Some key" by auto
    then obtain c where c: "List.find (\<lambda>c. key_at ?h c = Some key) cs = Some c"
      by (cases "List.find (\<lambda>c. key_at ?h c = Some key) cs") (auto simp: find_None_iff)
    then have "c \<in> set cs \<and> key_at ?h c = Some key"
      by (auto simp: find_Some_iff)
    then have "c = ns ! j" using uniq by simp
    moreover have "map_of (zip (map fst es) ns) key = Some (ns ! j)"
      using map_of_zip_nth[of "map fst es" ns j] len dk j by simp
    ultimately show ?thesis using c by simp
  qed
  with fl m bc i show ?thesis by (simp add: find_node_def)
qed

subsection \<open>Field views of an updated heap\<close>

lemma nxt_upd [simp]: "nxt (h(a \<mapsto> nd)) = (nxt h)(a := next nd)"
  by (rule ext) (simp add: nxt_def)

lemma prv_upd [simp]: "prv (h(a \<mapsto> nd)) = (prv h)(a := prev nd)"
  by (rule ext) (simp add: prv_def)

lemma hnx_upd [simp]: "hnx (h(a \<mapsto> nd)) = (hnx h)(a := hash_next nd)"
  by (rule ext) (simp add: hnx_def)

lemma ent_upd [simp]: "ent (h(a \<mapsto> nd)) = (ent h)(a := data nd)"
  by (rule ext) (simp add: ent_def)

lemma nxt_del [simp]: "nxt (h(a := None)) = (nxt h)(a := None)"
  by (rule ext) (simp add: nxt_def)

lemma prv_del [simp]: "prv (h(a := None)) = (prv h)(a := None)"
  by (rule ext) (simp add: prv_def)

lemma hnx_del [simp]: "hnx (h(a := None)) = (hnx h)(a := None)"
  by (rule ext) (simp add: hnx_def)

lemma ent_del [simp]: "ent (h(a := None)) = (ent h)(a := None)"
  by (rule ext) (simp add: ent_def)

lemma view_Some:
  "h a = Some nd \<Longrightarrow> nxt h a = next nd \<and> prv h a = prev nd \<and> hnx h a = hash_next nd \<and> ent h a = data nd"
  by (simp add: nxt_def prv_def hnx_def ent_def)

lemma nxt_SomeD: "nxt h a = Some b \<Longrightarrow> \<exists>nd. h a = Some nd \<and> next nd = Some b"
  by (auto simp: nxt_def split: option.splits)

lemma prv_SomeD: "prv h a = Some b \<Longrightarrow> \<exists>nd. h a = Some nd \<and> prev nd = Some b"
  by (auto simp: prv_def split: option.splits)

lemma ent_SomeD: "ent h a = Some kv \<Longrightarrow> \<exists>nd. h a = Some nd \<and> data nd = Some kv"
  by (auto simp: ent_def split: option.splits)

subsection \<open>Order list and bucket chains under updates\<close>

lemma links_append:
  "links nx pv (xs @ y # ys) = (links nx pv (xs @ [y]) \<and> links nx pv (y # ys))"
proof (induction xs rule: links.induct[of _ nx pv])
  case (1 a b r)
  then show ?case by simp
next
  case (2 a)
  then show ?case by (cases ys) simp_all
next
  case 3
  then show ?case by (cases ys) simp_all
qed

lemma links_nx_upd:
  "a \<notin> set (butlast xs) \<Longrightarrow> links (nx(a := v)) pv xs = links nx pv xs"
  by (induction xs rule: links.induct[of _ nx pv]) auto

lemma links_pv_upd:
  "a \<notin> set (tl xs) \<Longrightarrow> links nx (pv(a := v)) xs = links nx pv xs"
  by (induction xs rule: links.induct[of _ nx pv]) auto

lemma links_cong:
  "\<forall>a\<in>set xs. nx' a = nx a \<and> pv' a = pv a \<Longrightarrow> links nx' pv' xs = links nx pv xs"
  by (induction xs rule: links.induct[of _ nx pv]) auto

lemma chain_upd: "a \<notin> set cs \<Longrightarrow> chain (hn(a := v)) p cs = chain hn p cs"
  by (induction cs arbitrary: p) auto

lemma chain_cong: "\<forall>a\<in>set cs. hn' a = hn a \<Longrightarrow> chain hn' p cs = chain hn p cs"
  by (induction cs arbitrary: p) auto

lemma chain_unique: "chain hn p cs \<Longrightarrow> chain hn p cs' \<Longrightarrow> cs = cs'"
proof (induction cs arbitrary: p cs')
  case Nil
  then show ?case by (cases cs') auto
next
  case (Cons c cs)
  then show ?case by (cases cs') auto
qed

lemma chain_append: "chain hn p (xs @ ys) \<Longrightarrow> \<exists>q. chain hn q ys"
  by (induction xs arbitrary: p) auto

lemma chain_distinct: "chain hn p cs \<Longrightarrow> distinct cs"
proof (induction cs arbitrary: p)
  case Nil
  then show ?case by simp
next
  case (Cons c cs)
  then have ch: "chain hn (hn c) cs" and d: "distinct cs" by auto
  have "c \<notin> set cs"
  proof
    assume "c \<in> set cs"
    then obtain xs ys where s: "cs = xs @ c # ys" by (auto simp: in_set_conv_decomp)
    with ch have "chain hn (hn c) (xs @ c # ys)" by simp
    then have "\<exists>q. chain hn q (c # ys)" by (rule chain_append)
    then have "chain hn (hn c) ys" by auto
    with ch have "cs = ys" by (rule chain_unique)
    with s show False by simp
  qed
  with d show ?case by simp
qed

lemma lhm_invD:
  assumes "lhm_inv hf s this ns es"
  obtains m where "maps s this = Some m"
    "wf_lists hf m (nxt (nodes s)) (prv (nodes s)) (hnx (nodes s)) (ent (nodes s)) ns es"
    "\<forall>n\<in>set (path m ns). n < fresh s"
  using assms by (auto simp: lhm_inv_def split: option.splits)

lemma lhm_invI:
  "maps s this = Some m \<Longrightarrow>
   wf_lists hf m (nxt (nodes s)) (prv (nodes s)) (hnx (nodes s)) (ent (nodes s)) ns es \<Longrightarrow>
   \<forall>n\<in>set (path m ns). n < fresh s \<Longrightarrow> lhm_inv hf s this ns es"
  by (simp add: lhm_inv_def)

lemma links_prefix: "links nx pv (xs @ ys) \<Longrightarrow> links nx pv xs"
  by (induction xs rule: links.induct[of _ nx pv]) auto

lemma links_snoc:
  "xs \<noteq> [] \<Longrightarrow>
   links nx pv (xs @ [n]) = (links nx pv xs \<and> nx (last xs) = Some n \<and> pv n = Some (last xs))"
  by (induction xs rule: links.induct[of _ nx pv]) auto

lemma last_notin_butlast: "distinct xs \<Longrightarrow> xs \<noteq> [] \<Longrightarrow> last xs \<notin> set (butlast xs)"
  by (induction xs) auto

lemma wf_lists_insert:
  assumes wf: "wf_lists hf m nx pv hn en ns es"
    and key: "key \<notin> fst ` set es"
    and n: "n \<notin> set (path m ns)"
  defines "idx \<equiv> hf key mod bucket_count m"
    and "p \<equiv> last (head m # ns)"
  shows "wf_lists hf (m\<lparr>buckets := (buckets m)[idx := Some n], element_count := element_count m + 1\<rparr>)
           (nx(n := Some (tail m), p := Some n)) (pv(n := Some p, tail m := Some n))
           (hn(n := buckets m ! idx)) (en(n := Some (key, v)))
           (ns @ [n]) (es @ [(key, v)])"
proof -
  let ?t = "tail m" and ?xs = "head m # ns"
  let ?m' = "m\<lparr>buckets := (buckets m)[idx := Some n], element_count := element_count m + 1\<rparr>"
  let ?nx' = "nx(n := Some ?t, p := Some n)" and ?pv' = "pv(n := Some p, ?t := Some n)"
  let ?hn' = "hn(n := buckets m ! idx)" and ?en' = "en(n := Some (key, v))"
  from wf have d: "distinct (?xs @ [?t])" and l: "links nx pv (?xs @ [?t])"
    and e: "en (head m) = None" "en ?t = None" "map en ns = map Some es"
    and dk: "distinct (map fst es)"
    and bc: "0 < bucket_count m" "length (buckets m) = bucket_count m"
    and bk: "\<forall>i<bucket_count m. \<exists>cs. chain hn (buckets m ! i) cs
            \<and> set cs = {n \<in> set ns. slot hf (bucket_count m) en n = Some i}"
    and ec: "element_count m = length ns"
    by (simp_all add: wf_lists_def path_def)
  from n have n': "n \<noteq> head m" "n \<notin> set ns" "n \<noteq> ?t" by (simp_all add: path_def)
  have pin: "p \<in> set ?xs" unfolding p_def by (rule last_in_set) simp
  with d have pt: "p \<noteq> ?t" by auto
  from pin n' have pn: "p \<noteq> n" by auto
  have pb: "p \<notin> set (butlast ?xs)"
    unfolding p_def using d by (intro last_notin_butlast) simp_all
  have l1: "links nx pv ?xs"
    using l by (rule links_prefix)
  have l2: "links ?nx' ?pv' ?xs"
  proof -
    have "links ?nx' ?pv' ?xs = links (nx(n := Some ?t)) ?pv' ?xs"
      using pb by (simp add: links_nx_upd)
    also have "\<dots> = links nx ?pv' ?xs"
      using n' by (intro links_nx_upd) (auto dest: in_set_butlastD)
    also have "\<dots> = links nx (pv(n := Some p)) ?xs"
      using d by (intro links_pv_upd) simp
    also have "\<dots> = links nx pv ?xs"
      using n' by (intro links_pv_upd) simp
    finally show ?thesis using l1 by simp
  qed
  have l3: "links ?nx' ?pv' (?xs @ [n])"
  proof -
    have a: "?nx' p = Some n" by simp
    have b: "?pv' n = Some p" using n' by simp
    have lp: "last ?xs = p" by (simp only: p_def)
    have "?xs \<noteq> []" by simp
    from links_snoc[OF this, of ?nx' ?pv' n] l2 a b show ?thesis
      by (simp only: lp simp_thms)
  qed
  have l4: "links ?nx' ?pv' ((?xs @ [n]) @ [?t])"
  proof -
    have a: "?nx' n = Some ?t" using pn by simp
    have b: "?pv' ?t = Some n" by simp
    have "?xs @ [n] \<noteq> []" by simp
    from links_snoc[OF this, of ?nx' ?pv' ?t] l3 a b show ?thesis
      by (simp only: last_snoc simp_thms)
  qed
  have c1: "distinct (path ?m' (ns @ [n]))"
    using d n' by (simp add: path_def)
  have c2: "links ?nx' ?pv' (path ?m' (ns @ [n]))"
    using l4 by (simp add: path_def)
  have c3: "?en' (head ?m') = None" "?en' (tail ?m') = None"
    using e n' by simp_all
  have c4: "map ?en' (ns @ [n]) = map Some (es @ [(key, v)])"
    using e(3) n' by simp
  have c5: "distinct (map fst (es @ [(key, v)]))"
    using dk key by simp
  have idx: "idx < bucket_count m" unfolding idx_def using bc by simp
  have c6: "\<exists>cs. chain ?hn' (buckets ?m' ! i) cs
            \<and> set cs = {x \<in> set (ns @ [n]). slot hf (bucket_count ?m') ?en' x = Some i}"
    if i: "i < bucket_count m" for i
  proof -
    let ?P = "\<lambda>x. slot hf (bucket_count m) ?en' x = Some i"
    from bk i obtain cs where cs: "chain hn (buckets m ! i) cs"
      "set cs = {n \<in> set ns. slot hf (bucket_count m) en n = Some i}"
      by blast
    have ncs: "n \<notin> set cs" using cs(2) n'(2) by simp
    have ch: "chain ?hn' (buckets m ! i) cs" using cs(1) ncs by (simp add: chain_upd)
    have "slot hf (bucket_count m) ?en' x = slot hf (bucket_count m) en x" if "x \<in> set ns" for x
    proof -
      from that n'(2) have "x \<noteq> n" by blast
      then show ?thesis by (rule slot_upd_other)
    qed
    then have "{x \<in> set ns. ?P x} = {x \<in> set ns. slot hf (bucket_count m) en x = Some i}"
      by (intro Collect_cong conj_cong refl) simp
    with cs(2) have same: "{x \<in> set ns. ?P x} = set cs" by simp
    have sn: "slot hf (bucket_count m) ?en' n = Some idx" by (simp add: slot_def idx_def)
    have split: "{x \<in> set (ns @ [n]). ?P x} = {x \<in> set ns. ?P x} \<union> (if ?P n then {n} else {})"
      by auto
    have bcm: "bucket_count ?m' = bucket_count m" by simp
    show ?thesis
    proof (cases "i = idx")
      case True
      have "buckets ?m' ! i = Some n" using True idx bc by simp
      then have "chain ?hn' (buckets ?m' ! i) (n # cs)"
        using ch True by simp
      moreover have "set (n # cs) = {x \<in> set (ns @ [n]). ?P x}"
        unfolding split same using sn True by simp
      ultimately have "chain ?hn' (buckets ?m' ! i) (n # cs)
            \<and> set (n # cs) = {x \<in> set (ns @ [n]). slot hf (bucket_count ?m') ?en' x = Some i}"
        unfolding bcm by (rule conjI)
      then show ?thesis by (rule exI)
    next
      case False
      have "buckets ?m' ! i = buckets m ! i" using False by simp
      then have "chain ?hn' (buckets ?m' ! i) cs" using ch by simp
      moreover have "set cs = {x \<in> set (ns @ [n]). ?P x}"
        unfolding split same using sn False by simp
      ultimately have "chain ?hn' (buckets ?m' ! i) cs
            \<and> set cs = {x \<in> set (ns @ [n]). slot hf (bucket_count ?m') ?en' x = Some i}"
        unfolding bcm by (rule conjI)
      then show ?thesis by (rule exI)
    qed
  qed
  show ?thesis
    unfolding wf_lists_def
    using c1 c2 c3 c4 c5 c6 bc ec by simp
qed

lemma wf_lists_nodes:
  assumes "wf_lists hf m (nxt h) (prv h) (hnx h) (ent h) ns es"
  shows "\<exists>td pd. h (tail m) = Some td \<and> prev td = Some (last (head m # ns))
           \<and> h (last (head m # ns)) = Some pd \<and> next pd = Some (tail m)"
proof -
  from assms have "links (nxt h) (prv h) ((head m # ns) @ [tail m])"
    by (simp add: wf_lists_def path_def)
  then have "nxt h (last (head m # ns)) = Some (tail m) \<and> prv h (tail m) = Some (last (head m # ns))"
    by (subst (asm) links_snoc) simp_all
  then show ?thesis by (auto dest!: nxt_SomeD prv_SomeD)
qed

lemma insert_new_inv:
  assumes inv: "lhm_inv hf s this ns es" and key: "key \<notin> fst ` set es"
  shows "\<exists>s'. insert_new hf this (key, v) s
                 = Inr ((\<lparr>node = Some (fresh s), map_ptr = Some this\<rparr>, True), s')
              \<and> lhm_inv hf s' this (ns @ [fresh s]) (es @ [(key, v)])
              \<and> frame s s' this (lhm_nodes s this ns)
              \<and> fresh s' = Suc (fresh s)
              \<and> lhm_nodes s' this (ns @ [fresh s]) = insert (fresh s) (lhm_nodes s this ns)"
proof -
  from inv obtain m where m: "maps s this = Some m"
    and wf: "wf_lists hf m (nxt (nodes s)) (prv (nodes s)) (hnx (nodes s)) (ent (nodes s)) ns es"
    and bd: "\<forall>n\<in>set (path m ns). n < fresh s"
    by (rule lhm_invD)
  let ?h = "nodes s" and ?n = "fresh s" and ?t = "tail m"
  define p where "p = last (head m # ns)"
  let ?idx = "hf key mod bucket_count m"
  from bd have n: "?n \<notin> set (path m ns)" by auto
  from wf have bc: "0 < bucket_count m" "length (buckets m) = bucket_count m"
    and d: "distinct (path m ns)"
    by (simp_all add: wf_lists_def)
  from wf_lists_nodes[OF wf, folded p_def] obtain td pd where
    td: "?h ?t = Some td" "prev td = Some p" and pd: "?h p = Some pd" "next pd = Some ?t"
    by blast
  have pin: "p \<in> set (head m # ns)" unfolding p_def by (rule last_in_set) simp
  then have pp: "p \<in> set (path m ns)" by (auto simp: path_def)
  have tp: "?t \<in> set (path m ns)" by (simp add: path_def)
  from pin d have pt: "p \<noteq> ?t" by (auto simp: path_def)
  from pp n have pn: "p \<noteq> ?n" by auto
  from tp n have tn: "?t \<noteq> ?n" by auto
  let ?N1 = "\<lparr>data = Some (key, v), prev = Some p, next = Some ?t, hash_next = None\<rparr>"
  let ?h1 = "?h(?n \<mapsto> \<lparr>data = Some (key, v), prev = None, next = None, hash_next = None\<rparr>)"
  let ?h2 = "?h1(?n \<mapsto> ?N1, p \<mapsto> pd\<lparr>next := Some ?n\<rparr>, ?t \<mapsto> td\<lparr>prev := Some ?n\<rparr>)"
  let ?h3 = "?h2(?n \<mapsto> ?N1\<lparr>hash_next := buckets m ! ?idx\<rparr>)"
  let ?m' = "m\<lparr>buckets := (buckets m)[?idx := Some ?n], element_count := element_count m + 1\<rparr>"
  let ?s' = "s\<lparr>nodes := ?h3, fresh := Suc ?n, maps := (maps s)(this \<mapsto> ?m')\<rparr>"
  have ap: "append_node ?h1 ?t ?n = Inr ?h2"
    using td pd pt pn tn by (simp add: append_node_def)
  have bp: "bucket_push hf m ?h2 key ?n = Inr (?h3, (buckets m)[?idx := Some ?n])"
    using bc pt pn tn by (simp add: bucket_push_def)
  have run: "insert_new hf this (key, v) s
                 = Inr ((\<lparr>node = Some ?n, map_ptr = Some this\<rparr>, True), ?s')"
    using m ap bp by (simp add: insert_new_def new_Node_def)
  have v1: "nxt ?h3 = (nxt ?h)(?n := Some ?t, p := Some ?n)"
    using td pd pt pn tn by (auto simp: fun_eq_iff nxt_def)
  have v2: "prv ?h3 = (prv ?h)(?n := Some p, ?t := Some ?n)"
    using td pd pt pn tn by (auto simp: fun_eq_iff prv_def)
  have v3: "hnx ?h3 = (hnx ?h)(?n := buckets m ! ?idx)"
    using td pd pt pn tn by (auto simp: fun_eq_iff hnx_def)
  have v4: "ent ?h3 = (ent ?h)(?n := Some (key, v))"
    using td pd pt pn tn by (auto simp: fun_eq_iff ent_def)
  have wf': "wf_lists hf ?m' (nxt ?h3) (prv ?h3) (hnx ?h3) (ent ?h3) (ns @ [?n]) (es @ [(key, v)])"
    unfolding v1 v2 v3 v4 by (rule wf_lists_insert[OF wf key n, folded p_def])
  have bd': "\<forall>a\<in>set (path ?m' (ns @ [?n])). a < fresh ?s'"
    using bd by (auto simp: path_def less_Suc_eq)
  have inv': "lhm_inv hf ?s' this (ns @ [?n]) (es @ [(key, v)])"
    by (rule lhm_invI[where m="?m'"]) (use wf' bd' in simp_all)
  have fr: "frame s ?s' this (lhm_nodes s this ns)"
    using pp tp m by (auto simp: frame_def lhm_nodes_def)
  have ln: "lhm_nodes ?s' this (ns @ [fresh s]) = insert (fresh s) (lhm_nodes s this ns)"
    using m by (auto simp: lhm_nodes_def path_def)
  show ?thesis
    using run inv' fr ln by (intro exI[of _ ?s']) simp
qed

lemma links_fwd: "links nx pv (a # rs @ [t]) \<Longrightarrow> fwd nx (nx a) rs t"
  by (induction rs arbitrary: a) auto

lemma fwd_cong: "\<forall>a\<in>set rs. nx' a = nx a \<Longrightarrow> fwd nx' p rs t = fwd nx p rs t"
  by (induction rs arbitrary: p) auto

lemma same_but_hash_refl: "same_but_hash h h"
  by (simp add: same_but_hash_def)

lemma same_but_hash_trans: "same_but_hash h h1 \<Longrightarrow> same_but_hash h1 h2 \<Longrightarrow> same_but_hash h h2"
  by (simp add: same_but_hash_def)

lemma same_but_hash_upd:
  "h a = Some nd \<Longrightarrow> same_but_hash h (h(a \<mapsto> nd\<lparr>hash_next := x\<rparr>))"
  by (simp add: same_but_hash_def)

lemma same_but_hash_fields:
  assumes "same_but_hash h h'"
  shows "h' a = None \<longleftrightarrow> h a = None"
    and "h a = Some nd \<Longrightarrow> h' a = Some nd' \<Longrightarrow>
           data nd' = data nd \<and> prev nd' = prev nd \<and> next nd' = next nd"
proof -
  from assms have e: "map_option (\<lambda>nd. nd\<lparr>hash_next := None\<rparr>) (h' a)
          = map_option (\<lambda>nd. nd\<lparr>hash_next := None\<rparr>) (h a)"
    by (simp add: same_but_hash_def)
  then show "h' a = None \<longleftrightarrow> h a = None" by (cases "h a"; cases "h' a") simp_all
  assume "h a = Some nd" "h' a = Some nd'"
  with e have "nd'\<lparr>hash_next := None\<rparr> = nd\<lparr>hash_next := None\<rparr>" by simp
  then show "data nd' = data nd \<and> prev nd' = prev nd \<and> next nd' = next nd"
    by (cases nd; cases nd') simp
qed

lemma same_but_hash_views:
  assumes "same_but_hash h h'"
  shows "nxt h' = nxt h" "prv h' = prv h" "ent h' = ent h"
proof -
  have "nxt h' a = nxt h a \<and> prv h' a = prv h a \<and> ent h' a = ent h a" for a
  proof (cases "h a")
    case None
    then have "h' a = None" using same_but_hash_fields(1)[OF assms, of a] by simp
    with None show ?thesis by (simp add: nxt_def prv_def ent_def)
  next
    case (Some nd)
    then obtain nd' where nd': "h' a = Some nd'"
      using same_but_hash_fields(1)[OF assms, of a] by (cases "h' a") simp_all
    from same_but_hash_fields(2)[OF assms Some nd'] Some nd' show ?thesis
      by (simp add: nxt_def prv_def ent_def)
  qed
  then show "nxt h' = nxt h" "prv h' = prv h" "ent h' = ent h"
    by (simp_all add: fun_eq_iff)
qed

lemma rehash_loop_correct:
  assumes "fwd (nxt h) cur rs tln" "distinct rs" "tln \<notin> set rs"
    "\<forall>a\<in>set rs. ent h a \<noteq> None" "0 < bc" "length bks = bc"
  shows "\<exists>h' bks'. rehash_loop hf tln bc h bks cur = Some (Inr (h', bks'))
           \<and> same_but_hash h h' \<and> (\<forall>a. a \<notin> set rs \<longrightarrow> h' a = h a)
           \<and> length bks' = bc
           \<and> (\<forall>i<bc. \<forall>cs. chain (hnx h) (bks ! i) cs \<and> set cs \<inter> set rs = {} \<longrightarrow>
                 (\<exists>cs'. chain (hnx h') (bks' ! i) cs'
                    \<and> set cs' = set cs \<union> {n \<in> set rs. slot hf bc (ent h) n = Some i}))"
  using assms
proof (induction rs arbitrary: h bks cur)
  case Nil
  then have "rehash_loop hf tln bc h bks cur = Some (Inr (h, bks))"
    by (subst rehash_loop.simps) simp
  moreover have "\<exists>cs'. chain (hnx h) (bks ! i) cs'
                    \<and> set cs' = set cs \<union> {n \<in> set []. slot hf bc (ent h) n = Some i}"
    if "chain (hnx h) (bks ! i) cs" for i cs
    using that by (intro exI[of _ cs]) simp
  ultimately show ?case using Nil.prems(6)
    by (intro exI[of _ h] exI[of _ bks] conjI allI impI) (simp_all add: same_but_hash_refl)
next
  case (Cons a rs)
  from Cons.prems have cur: "cur = Some a" and at: "a \<noteq> tln"
    and fw: "fwd (nxt h) (nxt h a) rs tln" and d: "distinct rs" "a \<notin> set rs" "tln \<notin> set rs"
    by auto
  from Cons.prems obtain nd kv where nd: "h a = Some nd" "data nd = Some kv"
    by (auto simp: ent_def split: option.splits)
  let ?idx = "hf (fst kv) mod bc"
  let ?h1 = "h(a \<mapsto> nd\<lparr>hash_next := bks ! ?idx\<rparr>)"
  let ?bks1 = "bks[?idx := Some a]"
  from Cons.prems have idx: "?idx < bc" and len: "length bks = bc" and bc: "0 < bc" by auto
  have sb1: "same_but_hash h ?h1" using nd(1) by (rule same_but_hash_upd)
  note v1 = same_but_hash_views[OF sb1]
  have hn1: "hnx ?h1 = (hnx h)(a := bks ! ?idx)" by simp
  have nx: "next nd = nxt h a" using nd by (simp add: nxt_def)
  have sa: "slot hf bc (ent h) a = Some ?idx" using nd by (simp add: slot_def ent_def)
  have step: "rehash_loop hf tln bc h bks cur = rehash_loop hf tln bc ?h1 ?bks1 (nxt h a)"
    using cur at nd idx len nx by (subst rehash_loop.simps) simp
  have "\<exists>h' bks'. rehash_loop hf tln bc ?h1 ?bks1 (nxt h a) = Some (Inr (h', bks'))
           \<and> same_but_hash ?h1 h' \<and> (\<forall>a. a \<notin> set rs \<longrightarrow> h' a = ?h1 a)
           \<and> length bks' = bc
           \<and> (\<forall>i<bc. \<forall>cs. chain (hnx ?h1) (?bks1 ! i) cs \<and> set cs \<inter> set rs = {} \<longrightarrow>
                 (\<exists>cs'. chain (hnx h') (bks' ! i) cs'
                    \<and> set cs' = set cs \<union> {n \<in> set rs. slot hf bc (ent ?h1) n = Some i}))"
  proof (rule Cons.IH)
    show "fwd (nxt ?h1) (nxt h a) rs tln" using fw by (simp only: v1)
    show "distinct rs" "tln \<notin> set rs" by fact+
    show "\<forall>a\<in>set rs. ent ?h1 a \<noteq> None" using Cons.prems(4) by (simp only: v1) simp
    show "0 < bc" by fact
    show "length ?bks1 = bc" using len by simp
  qed
  then obtain h' bks' where r: "rehash_loop hf tln bc ?h1 ?bks1 (nxt h a) = Some (Inr (h', bks'))"
    and sb: "same_but_hash ?h1 h'" and fr: "\<forall>x. x \<notin> set rs \<longrightarrow> h' x = ?h1 x"
    and l': "length bks' = bc"
    and ch: "\<forall>i<bc. \<forall>cs. chain (hnx ?h1) (?bks1 ! i) cs \<and> set cs \<inter> set rs = {} \<longrightarrow>
                 (\<exists>cs'. chain (hnx h') (bks' ! i) cs'
                    \<and> set cs' = set cs \<union> {n \<in> set rs. slot hf bc (ent h) n = Some i})"
    unfolding v1 by (elim exE conjE)
  have c1: "same_but_hash h h'" using sb1 sb by (rule same_but_hash_trans)
  have c2: "\<forall>x. x \<notin> set (a # rs) \<longrightarrow> h' x = h x" using fr by simp
  have c3: "\<exists>cs'. chain (hnx h') (bks' ! i) cs'
                    \<and> set cs' = set cs \<union> {n \<in> set (a # rs). slot hf bc (ent h) n = Some i}"
    if i: "i < bc" and cs: "chain (hnx h) (bks ! i) cs" "set cs \<inter> set (a # rs) = {}" for i cs
  proof -
    from cs(2) have acs: "a \<notin> set cs" and dis: "set cs \<inter> set rs = {}" by auto
    have ch1: "chain (hnx ?h1) (bks ! i) cs" unfolding hn1 using cs(1) acs by (simp add: chain_upd)
    have "{n \<in> set (a # rs). P n} = (if P a then {a} else {}) \<union> {n \<in> set rs. P n}" for P
      by auto
    then have split: "{n \<in> set (a # rs). slot hf bc (ent h) n = Some i}
        = (if ?idx = i then {a} else {}) \<union> {n \<in> set rs. slot hf bc (ent h) n = Some i}"
      by (simp only: sa option.inject)
    show ?thesis
    proof (cases "i = ?idx")
      case True
      have "chain (hnx ?h1) (?bks1 ! i) (a # cs)"
        using ch1 True idx len by (simp del: hnx_upd add: hn1)
      moreover have "set (a # cs) \<inter> set rs = {}" using dis d by simp
      ultimately have "\<exists>cs'. chain (hnx h') (bks' ! i) cs'
           \<and> set cs' = set (a # cs) \<union> {n \<in> set rs. slot hf bc (ent h) n = Some i}"
        using ch[rule_format, of i "a # cs"] i by simp
      then obtain cs' where "chain (hnx h') (bks' ! i) cs'"
        "set cs' = set (a # cs) \<union> {n \<in> set rs. slot hf bc (ent h) n = Some i}"
        by (elim exE conjE)
      then have "chain (hnx h') (bks' ! i) cs'
                    \<and> set cs' = set cs \<union> {n \<in> set (a # rs). slot hf bc (ent h) n = Some i}"
        unfolding split using True by simp
      then show ?thesis by (rule exI)
    next
      case False
      have "chain (hnx ?h1) (?bks1 ! i) cs"
        using ch1 False by simp
      then have "\<exists>cs'. chain (hnx h') (bks' ! i) cs'
           \<and> set cs' = set cs \<union> {n \<in> set rs. slot hf bc (ent h) n = Some i}"
        using ch[rule_format, of i cs] i dis by simp
      then obtain cs' where "chain (hnx h') (bks' ! i) cs'"
        "set cs' = set cs \<union> {n \<in> set rs. slot hf bc (ent h) n = Some i}"
        by (elim exE conjE)
      then have "chain (hnx h') (bks' ! i) cs'
                    \<and> set cs' = set cs \<union> {n \<in> set (a # rs). slot hf bc (ent h) n = Some i}"
        unfolding split using False by simp
      then show ?thesis by (rule exI)
    qed
  qed
  have "rehash_loop hf tln bc h bks cur = Some (Inr (h', bks'))" using step r by simp
  then show ?case
    using c1 c2 l' c3 by (intro exI[of _ h'] exI[of _ bks'] conjI allI impI) simp_all
qed

lemma map_Some_nth:
  assumes "map f ns = map Some es" "i < length ns"
  shows "f (ns ! i) = Some (es ! i)"
proof -
  have "map f ns ! i = map Some es ! i" using assms by simp
  moreover have "length es = length ns" using assms(1) by (metis length_map)
  ultimately show ?thesis using assms(2) by simp
qed

lemma map_Some_mem:
  assumes "map f ns = map Some es" "a \<in> set ns"
  shows "f a \<noteq> None"
proof -
  from assms(2) obtain i where "i < length ns" "ns ! i = a" by (auto simp: in_set_conv_nth)
  with map_Some_nth[OF assms(1), of i] show ?thesis by simp
qed

lemma rehash_inv:
  assumes inv: "lhm_inv hf s this ns es" and nb: "0 < nb"
  shows "\<exists>s'. rehash hf this nb s = Some (Inr s')
           \<and> lhm_inv hf s' this ns es
           \<and> same_but_hash (nodes s) (nodes s')
           \<and> (\<forall>a. a \<notin> set ns \<longrightarrow> nodes s' a = nodes s a)
           \<and> fresh s' = fresh s
           \<and> (\<forall>b. b \<noteq> this \<longrightarrow> maps s' b = maps s b)
           \<and> (\<exists>m bks. maps s this = Some m
                 \<and> maps s' this = Some (m\<lparr>bucket_count := nb, buckets := bks\<rparr>))"
proof -
  from inv obtain m where m: "maps s this = Some m"
    and wf: "wf_lists hf m (nxt (nodes s)) (prv (nodes s)) (hnx (nodes s)) (ent (nodes s)) ns es"
    and bd: "\<forall>n\<in>set (path m ns). n < fresh s"
    by (rule lhm_invD)
  let ?h = "nodes s"
  from wf have d: "distinct (path m ns)" and l: "links (nxt ?h) (prv ?h) (path m ns)"
    and e: "ent ?h (head m) = None" "ent ?h (tail m) = None" "map (ent ?h) ns = map Some es"
    and dk: "distinct (map fst es)" and ec: "element_count m = length ns"
    by (simp_all add: wf_lists_def)
  from l have fw: "fwd (nxt ?h) (nxt ?h (head m)) ns (tail m)"
    unfolding path_def by (rule links_fwd)
  have "nxt ?h (head m) \<noteq> None" using fw by (cases ns) auto
  then obtain hdn where hdn: "?h (head m) = Some hdn" "next hdn = nxt ?h (head m)"
    by (auto simp: nxt_def split: option.splits)
  from d have d': "distinct ns" "tail m \<notin> set ns" by (simp_all add: path_def)
  have en: "\<forall>a\<in>set ns. ent ?h a \<noteq> None"
    using map_Some_mem[OF e(3)] by blast
  have "length (replicate nb (None :: addr option)) = nb" by simp
  from rehash_loop_correct[OF fw d' en nb this, of hf]
  obtain h' bks' where
    r: "rehash_loop hf (tail m) nb ?h (replicate nb None) (nxt ?h (head m)) = Some (Inr (h', bks'))"
    and sb: "same_but_hash ?h h'" and fr: "\<forall>a. a \<notin> set ns \<longrightarrow> h' a = ?h a"
    and len: "length bks' = nb"
    and ch: "\<forall>i<nb. \<forall>cs. chain (hnx ?h) (replicate nb None ! i) cs \<and> set cs \<inter> set ns = {} \<longrightarrow>
                 (\<exists>cs'. chain (hnx h') (bks' ! i) cs'
                    \<and> set cs' = set cs \<union> {n \<in> set ns. slot hf nb (ent ?h) n = Some i})"
    by (elim exE conjE)
  let ?m' = "m\<lparr>bucket_count := nb, buckets := bks'\<rparr>"
  let ?s' = "s\<lparr>nodes := h', maps := (maps s)(this \<mapsto> ?m')\<rparr>"
  have run: "rehash hf this nb s = Some (Inr ?s')"
    using m hdn r by (simp add: rehash_def init_buckets_def)
  note v = same_but_hash_views[OF sb]
  have c: "\<exists>cs. chain (hnx h') (bks' ! i) cs
            \<and> set cs = {n \<in> set ns. slot hf nb (ent ?h) n = Some i}" if i: "i < nb" for i
  proof -
    have "chain (hnx ?h) (replicate nb None ! i) [] \<and> set [] \<inter> set ns = {}"
      using i by simp
    with ch[rule_format, OF i, of "[]"] show ?thesis by simp
  qed
  have pm: "path ?m' ns = path m ns" by (simp add: path_def)
  have wf': "wf_lists hf ?m' (nxt h') (prv h') (hnx h') (ent h') ns es"
    unfolding wf_lists_def pm v using d l e dk ec nb len c by simp
  have inv': "lhm_inv hf ?s' this ns es"
    by (rule lhm_invI[where m="?m'"]) (use wf' bd pm in simp_all)
  have "\<exists>m bks. maps s this = Some m
                 \<and> maps ?s' this = Some (m\<lparr>bucket_count := nb, buckets := bks\<rparr>)"
    using m by (intro exI[of _ m] exI[of _ bks']) simp
  then show ?thesis
    using run inv' sb fr by (intro exI[of _ ?s']) simp
qed

lemma construct_inv:
  "lhm_inv hf (construct this s) this [] []
   \<and> fresh (construct this s) = Suc (Suc (fresh s))
   \<and> (\<forall>b. b \<noteq> this \<longrightarrow> maps (construct this s) b = maps s b)
   \<and> (\<forall>a. a < fresh s \<longrightarrow> nodes (construct this s) a = nodes s a)
   \<and> lhm_nodes (construct this s) this [] = {fresh s, Suc (fresh s)}"
proof -
  let ?m = "\<lparr>head = fresh s, tail = Suc (fresh s), buckets = replicate 16 None,
             bucket_count = 16, element_count = 0\<rparr>"
  have m: "maps (construct this s) this = Some ?m"
    by (simp add: construct_def new_Node_def init_buckets_def INITIAL_BUCKET_COUNT_def)
  have v: "nxt (nodes (construct this s)) (fresh s) = Some (Suc (fresh s))"
    "prv (nodes (construct this s)) (Suc (fresh s)) = Some (fresh s)"
    "ent (nodes (construct this s)) (fresh s) = None"
    "ent (nodes (construct this s)) (Suc (fresh s)) = None"
    by (simp_all add: construct_def new_Node_def nxt_def prv_def ent_def)
  have c: "\<exists>cs. chain hn (buckets ?m ! i) cs \<and> set cs = {n \<in> set []. P n}"
    if "i < 16" for i hn and P :: "addr \<Rightarrow> bool"
    using that by (intro exI[of _ "[]"]) simp
  have wf: "wf_lists hf ?m (nxt (nodes (construct this s))) (prv (nodes (construct this s)))
       (hnx (nodes (construct this s))) (ent (nodes (construct this s))) [] []"
    unfolding wf_lists_def using v c by (simp add: path_def)
  have f: "fresh (construct this s) = Suc (Suc (fresh s))"
    by (simp add: construct_def new_Node_def)
  have inv: "lhm_inv hf (construct this s) this [] []"
    by (rule lhm_invI[OF m wf]) (simp add: path_def f)
  have "\<forall>b. b \<noteq> this \<longrightarrow> maps (construct this s) b = maps s b"
    by (simp add: construct_def new_Node_def)
  moreover have "\<forall>a. a < fresh s \<longrightarrow> nodes (construct this s) a = nodes s a"
    by (simp add: construct_def new_Node_def)
  moreover have "lhm_nodes (construct this s) this [] = {fresh s, Suc (fresh s)}"
    using m by (simp add: lhm_nodes_def path_def)
  ultimately show ?thesis using inv f by simp
qed

lemma check_and_rehash_inv:
  assumes inv: "lhm_inv hf s this ns es"
  shows "\<exists>s'. check_and_rehash hf this s = Some (Inr s')
           \<and> lhm_inv hf s' this ns es
           \<and> same_but_hash (nodes s) (nodes s')
           \<and> (\<forall>a. a \<notin> set ns \<longrightarrow> nodes s' a = nodes s a)
           \<and> fresh s' = fresh s
           \<and> (\<forall>b. b \<noteq> this \<longrightarrow> maps s' b = maps s b)
           \<and> (\<exists>m bks. maps s this = Some m
                 \<and> maps s' this = Some (m\<lparr>bucket_count :=
                       (if 4 * element_count m > 3 * bucket_count m then bucket_count m * 2
                        else bucket_count m), buckets := bks\<rparr>))"
proof -
  from inv obtain m where m: "maps s this = Some m"
    and wf: "wf_lists hf m (nxt (nodes s)) (prv (nodes s)) (hnx (nodes s)) (ent (nodes s)) ns es"
    by (rule lhm_invD)
  from wf have bc: "0 < bucket_count m" by (simp add: wf_lists_def)
  show ?thesis
  proof (cases "4 * element_count m > 3 * bucket_count m")
    case True
    then have "check_and_rehash hf this s = rehash hf this (bucket_count m * 2) s"
      using m by (simp add: check_and_rehash_def)
    moreover have "0 < bucket_count m * 2" using bc by simp
    note rehash_inv[OF inv this]
    ultimately show ?thesis using m True by auto
  next
    case False
    then have "check_and_rehash hf this s = Some (Inr s)"
      using m by (simp add: check_and_rehash_def)
    moreover have "\<exists>ma bks. maps s this = Some ma
                 \<and> maps s this = Some (ma\<lparr>bucket_count :=
                       (if 4 * element_count ma > 3 * bucket_count ma then bucket_count ma * 2
                        else bucket_count ma), buckets := bks\<rparr>)"
      using m False by (intro exI[of _ m] exI[of _ "buckets m"]) simp
    ultimately show ?thesis using inv by (intro exI[of _ s]) (simp add: same_but_hash_refl)
  qed
qed

lemma lhm_nodes_bound:
  "lhm_inv hf s this ns es \<Longrightarrow> \<forall>a\<in>lhm_nodes s this ns. a < fresh s"
  by (auto simp: lhm_inv_def lhm_nodes_def split: option.splits)

lemma insert_absent:
  assumes inv: "lhm_inv hf s this ns es" and key: "key \<notin> fst ` set es"
  shows "\<exists>s'. insert_lhm hf this (key, v) s
                 = Some (Inr ((\<lparr>node = Some (fresh s), map_ptr = Some this\<rparr>, True), s'))
           \<and> lhm_inv hf s' this (ns @ [fresh s]) (es @ [(key, v)])
           \<and> frame s s' this (lhm_nodes s this ns)
           \<and> fresh s' = Suc (fresh s)
           \<and> lhm_nodes s' this (ns @ [fresh s]) = insert (fresh s) (lhm_nodes s this ns)"
proof -
  have len: "length es = length ns"
    using inv by (auto simp: lhm_inv_def wf_lists_def split: option.splits dest: map_eq_imp_length_eq)
  have "map fst (zip (map fst es) ns) = map fst es" using len by (simp add: map_fst_zip)
  then have "map_of (zip (map fst es) ns) key = None"
    using key by (metis map_of_eq_None_iff set_map)
  with find_node_inv[OF inv, of key] have fn: "find_node hf this key s = Some (Inr None)" by simp
  from check_and_rehash_inv[OF inv] obtain s1 m bks where
    cr: "check_and_rehash hf this s = Some (Inr s1)"
    and inv1: "lhm_inv hf s1 this ns es"
    and fr1: "\<forall>a. a \<notin> set ns \<longrightarrow> nodes s1 a = nodes s a"
    and f1: "fresh s1 = fresh s"
    and o1: "\<forall>b. b \<noteq> this \<longrightarrow> maps s1 b = maps s b"
    and m: "maps s this = Some m"
    and m1: "maps s1 this = Some (m\<lparr>bucket_count :=
                       (if 4 * element_count m > 3 * bucket_count m then bucket_count m * 2
                        else bucket_count m), buckets := bks\<rparr>)"
    by (elim exE conjE)
  let ?m1 = "m\<lparr>bucket_count := (if 4 * element_count m > 3 * bucket_count m then bucket_count m * 2
                        else bucket_count m), buckets := bks\<rparr>"
  have p1: "path ?m1 ns = path m ns" by (simp add: path_def)
  from insert_new_inv[OF inv1 key, of v] obtain s' where
    run: "insert_new hf this (key, v) s1
                 = Inr ((\<lparr>node = Some (fresh s1), map_ptr = Some this\<rparr>, True), s')"
    and inv': "lhm_inv hf s' this (ns @ [fresh s1]) (es @ [(key, v)])"
    and fr2: "frame s1 s' this (lhm_nodes s1 this ns)"
    and f2: "fresh s' = Suc (fresh s1)"
    and ln2: "lhm_nodes s' this (ns @ [fresh s1]) = insert (fresh s1) (lhm_nodes s1 this ns)"
    by (elim exE conjE)
  have ln1: "lhm_nodes s1 this ns = lhm_nodes s this ns"
    using m m1 p1 by (simp add: lhm_nodes_def)
  have nsp: "set ns \<subseteq> lhm_nodes s this ns" using m by (auto simp: lhm_nodes_def path_def)
  have fr: "frame s s' this (lhm_nodes s this ns)"
    unfolding frame_def
  proof (intro conjI allI impI)
    show "fresh s \<le> fresh s'" using f1 f2 by simp
    fix b assume "b \<noteq> this"
    then show "maps s' b = maps s b" using fr2 o1 by (simp add: frame_def)
  next
    fix a assume a: "a \<notin> lhm_nodes s this ns \<and> a < fresh s"
    then have "a \<notin> set ns" using nsp by blast
    then have "nodes s1 a = nodes s a" using fr1 by simp
    moreover have "nodes s' a = nodes s1 a" using fr2 a ln1 f1 by (simp add: frame_def)
    ultimately show "nodes s' a = nodes s a" by simp
  qed
  have ins: "insert_lhm hf this (key, v) s
                 = Some (Inr ((\<lparr>node = Some (fresh s), map_ptr = Some this\<rparr>, True), s'))"
    using fn cr run f1 by (simp add: insert_lhm_def)
  show ?thesis
    using ins inv' fr f1 f2 ln2 ln1 by (intro exI[of _ s']) simp
qed

lemma insert_present:
  assumes inv: "lhm_inv hf s this ns es" and i: "i < length ns"
  shows "insert_lhm hf this (fst (es ! i), v) s
           = Some (Inr ((\<lparr>node = Some (ns ! i), map_ptr = Some this\<rparr>, False), s))"
proof -
  from inv have len: "length es = length ns" and dk: "distinct (map fst es)"
    by (auto simp: lhm_inv_def wf_lists_def split: option.splits dest: map_eq_imp_length_eq)
  have "map_of (zip (map fst es) ns) (map fst es ! i) = Some (ns ! i)"
    using len dk i by (intro map_of_zip_nth) simp_all
  then have "map_of (zip (map fst es) ns) (fst (es ! i)) = Some (ns ! i)"
    using i len by simp
  with find_node_inv[OF inv, of "fst (es ! i)"] show ?thesis
    by (simp add: insert_lhm_def)
qed

lemma one_map_inv: "lhm_inv id one_map 100 [2] [(1, 10)]"
proof -
  have f: "fresh (construct 100 empty_state) = 2"
    using construct_inv[of id 100 empty_state] by (simp add: empty_state_def)
  have "lhm_inv id (construct 100 empty_state) 100 [] []"
    using construct_inv[of id 100 empty_state] by simp
  from insert_absent[OF this, of 1 10] f obtain s' where
    "insert_lhm id 100 (1, 10) (construct 100 empty_state)
       = Some (Inr ((\<lparr>node = Some 2, map_ptr = Some 100\<rparr>, True), s'))"
    "lhm_inv id s' 100 [2] [(1, 10)]"
    by auto
  then show ?thesis by (simp add: one_map_def)
qed

lemma lookup_absent:
  assumes "lhm_inv hf s this ns es" "key \<notin> fst ` set es"
  shows "find_node hf this key s = Some (Inr None)" "map_of es key = None"
proof -
  from assms(1) have len: "length es = length ns"
    by (auto simp: lhm_inv_def wf_lists_def split: option.splits dest: map_eq_imp_length_eq)
  have "map fst (zip (map fst es) ns) = map fst es" using len by (simp add: map_fst_zip)
  then have "map_of (zip (map fst es) ns) key = None"
    using assms(2) by (metis map_of_eq_None_iff set_map)
  with find_node_inv[OF assms(1), of key] show "find_node hf this key s = Some (Inr None)" by simp
  show "map_of es key = None" using assms(2) by (simp add: map_of_eq_None_iff)
qed

lemma lookup_present:
  assumes "lhm_inv hf s this ns es" "i < length ns"
  shows "find_node hf this (fst (es ! i)) s = Some (Inr (Some (ns ! i)))"
    "map_of es (fst (es ! i)) = Some (snd (es ! i))"
    "\<exists>nd. nodes s (ns ! i) = Some nd \<and> data nd = Some (es ! i)"
proof -
  from assms(1) have len: "length es = length ns" and dk: "distinct (map fst es)"
    and e: "map (ent (nodes s)) ns = map Some es"
    by (auto simp: lhm_inv_def wf_lists_def split: option.splits dest: map_eq_imp_length_eq)
  have "map_of (zip (map fst es) ns) (map fst es ! i) = Some (ns ! i)"
    using len dk assms(2) by (intro map_of_zip_nth) simp_all
  then have "map_of (zip (map fst es) ns) (fst (es ! i)) = Some (ns ! i)"
    using assms(2) len by simp
  with find_node_inv[OF assms(1), of "fst (es ! i)"]
  show "find_node hf this (fst (es ! i)) s = Some (Inr (Some (ns ! i)))" by simp
  have "es ! i \<in> set es" using assms(2) len by simp
  then have "(fst (es ! i), snd (es ! i)) \<in> set es" by simp
  with dk show "map_of es (fst (es ! i)) = Some (snd (es ! i))"
    by (intro map_of_is_SomeI)
  from map_Some_nth[OF e assms(2)] show "\<exists>nd. nodes s (ns ! i) = Some nd \<and> data nd = Some (es ! i)"
    by (rule ent_SomeD)
qed

lemma present_index:
  assumes "lhm_inv hf s this ns es" "map_of es key = Some v"
  shows "\<exists>i<length ns. es ! i = (key, v)"
proof -
  from assms(1) have len: "length es = length ns"
    by (auto simp: lhm_inv_def wf_lists_def split: option.splits dest: map_eq_imp_length_eq)
  from assms(2) have "(key, v) \<in> set es" by (rule map_of_SomeD)
  then show ?thesis using len by (auto simp: in_set_conv_nth)
qed

text \<open>
  C6. On a well-formed container holding the entries \<open>es\<close>, the mutable \<open>at\<close>, the read-only
  \<open>at\<close> and the read-only \<open>operator[]\<close> agree: when \<open>key\<close> is absent each of them throws
  \<open>index_out_of_bound\<close>; when \<open>key\<close> is mapped to \<open>v\<close> each of them returns the value \<open>v\<close>,
  located in a node \<open>n\<close> of the container whose entry is \<open>(key, v)\<close>. None of the three returns
  a state: the container is left as it was.
\<close>

theorem C6_at:
  assumes "lhm_inv hf s this ns es"
  shows "(case map_of es key of
            None \<Rightarrow> at hf this key s = Some (Inl index_out_of_bound)
                    \<and> at_const hf this key s = Some (Inl index_out_of_bound)
                    \<and> index_const hf this key s = Some (Inl index_out_of_bound)
          | Some v \<Rightarrow> (\<exists>n. at hf this key s = Some (Inr (n, v))
                    \<and> at_const hf this key s = Some (Inr (n, v))
                    \<and> index_const hf this key s = Some (Inr (n, v))
                    \<and> n \<in> set ns \<and> ent (nodes s) n = Some (key, v)))"
proof (cases "map_of es key")
  case None
  then have "key \<notin> fst ` set es" by (simp add: map_of_eq_None_iff)
  from lookup_absent(1)[OF assms this] None show ?thesis
    by (simp add: at_def at_const_def index_const_def)
next
  case (Some v)
  from present_index[OF assms Some] obtain i where i: "i < length ns" "es ! i = (key, v)" by blast
  from lookup_present[OF assms i(1)] i(2) obtain nd where
    "find_node hf this key s = Some (Inr (Some (ns ! i)))"
    "nodes s (ns ! i) = Some nd" "data nd = Some (key, v)" by auto
  then have "at hf this key s = Some (Inr (ns ! i, v))
                    \<and> at_const hf this key s = Some (Inr (ns ! i, v))
                    \<and> index_const hf this key s = Some (Inr (ns ! i, v))
                    \<and> ns ! i \<in> set ns \<and> ent (nodes s) (ns ! i) = Some (key, v)"
    using i(1) by (simp add: at_def at_const_def index_const_def ent_def)
  then show ?thesis using Some by auto
qed

theorem C6_at_witness:
  "at id 100 1 one_map = Some (Inr (2, 10)) \<and> index_const id 100 1 one_map = Some (Inr (2, 10))
   \<and> at id 100 5 one_map = Some (Inl index_out_of_bound)
   \<and> index_const id 100 5 one_map = Some (Inl index_out_of_bound)"
  using C6_at[OF one_map_inv, of 1] C6_at[OF one_map_inv, of 5] by simp

text \<open>
  C2. On a well-formed container in which \<open>key\<close> is mapped to \<open>v\<close>, \<open>insert\<close> of \<open>(key, v')\<close>
  returns the flag \<open>false\<close> and a position at a node \<open>n\<close> of the container whose entry is still
  \<open>(key, v)\<close>, and the state after the call is the state before it: no node is created,
  moved or destroyed and the stored value is not overwritten.
\<close>

theorem C2_reinsert:
  assumes "lhm_inv hf s this ns es" and "map_of es key = Some v"
  shows "\<exists>n. insert_lhm hf this (key, v') s
                = Some (Inr ((\<lparr>node = Some n, map_ptr = Some this\<rparr>, False), s))
              \<and> n \<in> set ns \<and> ent (nodes s) n = Some (key, v)
              \<and> iter_deref s \<lparr>node = Some n, map_ptr = Some this\<rparr> = Inr (key, v)"
proof -
  from present_index[OF assms] obtain i where i: "i < length ns" "es ! i = (key, v)" by blast
  from lookup_present[OF assms(1) i(1)] i(2) obtain nd where
    nd: "nodes s (ns ! i) = Some nd" "data nd = Some (key, v)" by auto
  from insert_present[OF assms(1) i(1), of v'] i(2)
  have "insert_lhm hf this (key, v') s
          = Some (Inr ((\<lparr>node = Some (ns ! i), map_ptr = Some this\<rparr>, False), s))" by simp
  then show ?thesis using nd i(1)
    by (intro exI[of _ "ns ! i"]) (simp add: ent_def iter_deref_def)
qed

theorem C2_reinsert_witness:
  "insert_lhm id 100 (1, 77) one_map
     = Some (Inr ((\<lparr>node = Some 2, map_ptr = Some 100\<rparr>, False), one_map))
   \<and> iter_deref one_map \<lparr>node = Some 2, map_ptr = Some 100\<rparr> = Inr (1, 10)"
  using C2_reinsert[OF one_map_inv, of 1 10 77] by simp

lemma iter_deref_never_throws:
  "iter_deref s it \<noteq> Inl invalid_iterator \<and> iter_deref s it \<noteq> Inl index_out_of_bound"
  by (simp add: iter_deref_def split: option.split)

text \<open>
  C9, as stated, fails. \<open>operator*\<close> is \<open>return *(node->data);\<close> with no check. At the end
  position of \<open>one_map\<close> the node is the tail sentinel, whose \<open>data\<close> pointer is null, and
  the operator dereferences it: the outcome is undefined behaviour, not a raised failure.
  So the code does not fail instead of reading the sentinel's absent entry; reading it is
  what it does.
\<close>

theorem C9_counterexample:
  "end_lhm 100 one_map = Inr \<lparr>node = Some 1, map_ptr = Some 100\<rparr>
   \<and> map_option data (nodes one_map 1) = Some None
   \<and> iter_deref one_map \<lparr>node = Some 1, map_ptr = Some 100\<rparr> = Inl undefined_behaviour
   \<and> iter_deref one_map \<lparr>node = Some 1, map_ptr = Some 100\<rparr> \<noteq> Inl invalid_iterator"
proof -
  obtain m where m: "maps one_map 100 = Some m" "tail m = 1"
    using one_map_maps by auto
  then show ?thesis
    using one_map_nodes(2) by (simp add: end_lhm_def iter_deref_def)
qed

text \<open>
  C9, amended. Dereference is unchecked: it never throws. On a well-formed container it
  yields an entry exactly at the interior nodes, where it returns the node's own entry;
  at the end position, at the head sentinel and at the null position it dereferences a
  null pointer, which is undefined behaviour, and produces no entry.
\<close>

theorem C9_dereference_unchecked:
  assumes "lhm_inv hf s this ns es" and "maps s this = Some m"
  shows "(\<forall>it. iter_deref s it \<noteq> Inl invalid_iterator \<and> iter_deref s it \<noteq> Inl index_out_of_bound)
         \<and> end_lhm this s = Inr \<lparr>node = Some (tail m), map_ptr = Some this\<rparr>
         \<and> iter_deref s \<lparr>node = Some (tail m), map_ptr = Some this\<rparr> = Inl undefined_behaviour
         \<and> iter_deref s \<lparr>node = Some (head m), map_ptr = Some this\<rparr> = Inl undefined_behaviour
         \<and> iter_deref s iterator_default = Inl undefined_behaviour
         \<and> (\<forall>i<length ns. iter_deref s \<lparr>node = Some (ns ! i), map_ptr = Some this\<rparr> = Inr (es ! i))
         \<and> (\<forall>n\<in>set (path m ns).
               (\<exists>kv. iter_deref s \<lparr>node = Some n, map_ptr = Some this\<rparr> = Inr kv) \<longleftrightarrow> n \<in> set ns)"
proof -
  from assms have e: "ent (nodes s) (head m) = None" "ent (nodes s) (tail m) = None"
    "map (ent (nodes s)) ns = map Some es" and d: "distinct (path m ns)"
    by (simp_all add: lhm_inv_def wf_lists_def)
  have dr: "iter_deref s \<lparr>node = Some n, map_ptr = p\<rparr>
      = (case ent (nodes s) n of None \<Rightarrow> Inl undefined_behaviour | Some kv \<Rightarrow> Inr kv)" for n p
    by (simp add: iter_deref_def ent_def split: option.splits)
  have a: "\<forall>i<length ns. iter_deref s \<lparr>node = Some (ns ! i), map_ptr = Some this\<rparr> = Inr (es ! i)"
    using map_Some_nth[OF e(3)] by (simp add: dr)
  have b: "(\<exists>kv. iter_deref s \<lparr>node = Some n, map_ptr = Some this\<rparr> = Inr kv) \<longleftrightarrow> n \<in> set ns"
    if "n \<in> set (path m ns)" for n
  proof (cases "n \<in> set ns")
    case True
    then show ?thesis using a by (auto simp: in_set_conv_nth)
  next
    case False
    with that have "n = head m \<or> n = tail m" by (auto simp: path_def)
    then have "ent (nodes s) n = None" using e by auto
    then show ?thesis using False by (simp add: dr)
  qed
  have c: "end_lhm this s = Inr \<lparr>node = Some (tail m), map_ptr = Some this\<rparr>"
    using assms(2) by (simp add: end_lhm_def)
  have d1: "iter_deref s \<lparr>node = Some (tail m), map_ptr = Some this\<rparr> = Inl undefined_behaviour"
    "iter_deref s \<lparr>node = Some (head m), map_ptr = Some this\<rparr> = Inl undefined_behaviour"
    using e by (simp_all add: dr)
  have d2: "iter_deref s iterator_default = Inl undefined_behaviour"
    by (simp add: iter_deref_def iterator_default_def)
  have nt: "\<forall>it. iter_deref s it \<noteq> Inl invalid_iterator \<and> iter_deref s it \<noteq> Inl index_out_of_bound"
    using iter_deref_never_throws[of s] by blast
  show ?thesis
    using a b c d1 d2 nt by (intro conjI ballI) simp_all
qed

theorem C9_dereference_unchecked_witness:
  "end_lhm 100 one_map = Inr \<lparr>node = Some 1, map_ptr = Some 100\<rparr>
   \<and> iter_deref one_map \<lparr>node = Some 1, map_ptr = Some 100\<rparr> = Inl undefined_behaviour
   \<and> iter_deref one_map \<lparr>node = Some 0, map_ptr = Some 100\<rparr> = Inl undefined_behaviour
   \<and> iter_deref one_map \<lparr>node = Some 2, map_ptr = Some 100\<rparr> = Inr (1, 10)"
proof -
  obtain m where m: "maps one_map 100 = Some m" "head m = 0" "tail m = 1"
    using one_map_maps by auto
  from C9_dereference_unchecked[OF one_map_inv m(1)] m show ?thesis by simp
qed

lemma same_but_hash_case:
  assumes sb: "same_but_hash h h'"
  shows "(case h' a of None \<Rightarrow> x | Some nd \<Rightarrow> f (data nd) (prev nd) (next nd))
         = (case h a of None \<Rightarrow> x | Some nd \<Rightarrow> f (data nd) (prev nd) (next nd))"
proof (cases "h a")
  case None
  then have "h' a = None" using same_but_hash_fields(1)[OF sb, of a] by simp
  with None show ?thesis by simp
next
  case (Some nd)
  then obtain nd' where nd': "h' a = Some nd'"
    using same_but_hash_fields(1)[OF sb, of a] by (cases "h' a") simp_all
  from same_but_hash_fields(2)[OF sb Some nd'] Some nd' show ?thesis by simp
qed

lemma same_ends_case:
  assumes "map_option (\<lambda>m. (head m, tail m)) y' = map_option (\<lambda>m. (head m, tail m)) y"
  shows "(case y' of None \<Rightarrow> x | Some m \<Rightarrow> g (head m) (tail m))
         = (case y of None \<Rightarrow> x | Some m \<Rightarrow> g (head m) (tail m))"
  using assms by (cases y; cases y') auto

lemma same_but_hash_iter:
  assumes sb: "same_but_hash (nodes s) (nodes s')"
    and mp: "\<forall>a. map_option (\<lambda>m. (head m, tail m)) (maps s' a)
                 = map_option (\<lambda>m. (head m, tail m)) (maps s a)"
  shows "iter_deref s' it = iter_deref s it" "iter_inc s' it = iter_inc s it"
    "iter_dec s' it = iter_dec s it" "begin_lhm this s' = begin_lhm this s"
    "end_lhm this s' = end_lhm this s"
proof -
  note n = same_but_hash_case[OF sb]
  show "iter_deref s' it = iter_deref s it"
    unfolding iter_deref_def
    using n[where x="Inl undefined_behaviour"
              and f="\<lambda>d p x. case d of None \<Rightarrow> Inl undefined_behaviour | Some kv \<Rightarrow> Inr kv"]
    by (simp split: option.split)
  show "iter_inc s' it = iter_inc s it"
  proof (cases "node it")
    case None
    then show ?thesis by (simp add: iter_inc_def)
  next
    case (Some a)
    show ?thesis
    proof (cases "map_ptr it")
      case None
      with Some show ?thesis by (simp add: iter_inc_def)
    next
      case (Some b)
      have "(case maps s' b of None \<Rightarrow> Inl undefined_behaviour
             | Some m \<Rightarrow> if a = tail m then Inl invalid_iterator
                 else (case nodes s' a of None \<Rightarrow> Inl undefined_behaviour
                       | Some nd \<Rightarrow> Inr (it\<lparr>node := next nd\<rparr>)))
          = (case maps s b of None \<Rightarrow> Inl undefined_behaviour
             | Some m \<Rightarrow> if a = tail m then Inl invalid_iterator
                 else (case nodes s a of None \<Rightarrow> Inl undefined_behaviour
                       | Some nd \<Rightarrow> Inr (it\<lparr>node := next nd\<rparr>)))"
        using n[where a=a and x="Inl undefined_behaviour" and f="\<lambda>d p x. Inr (it\<lparr>node := x\<rparr>)"]
          same_ends_case[OF mp[rule_format, of b], where x="Inl undefined_behaviour"
              and g="\<lambda>hd tl. if a = tl then Inl invalid_iterator
                 else (case nodes s a of None \<Rightarrow> Inl undefined_behaviour
                       | Some nd \<Rightarrow> Inr (it\<lparr>node := next nd\<rparr>))"]
        by (simp only:)
      with \<open>node it = Some a\<close> Some show ?thesis by (simp add: iter_inc_def)
    qed
  qed
  show "iter_dec s' it = iter_dec s it"
  proof (cases "node it")
    case None
    then show ?thesis by (simp add: iter_dec_def)
  next
    case (Some a)
    show ?thesis
    proof (cases "map_ptr it")
      case None
      with Some show ?thesis
        using n[where a=a and x="Inl undefined_behaviour" and f="\<lambda>d p x. Inl undefined_behaviour"]
        by (simp add: iter_dec_def cong: option.case_cong)
    next
      case (Some b)
      have "(case nodes s' a of None \<Rightarrow> Inl undefined_behaviour
             | Some nd \<Rightarrow> (case maps s' b of None \<Rightarrow> Inl undefined_behaviour
                 | Some m \<Rightarrow> if prev nd = Some (head m) then Inl invalid_iterator
                              else Inr (it\<lparr>node := prev nd\<rparr>)))
          = (case nodes s a of None \<Rightarrow> Inl undefined_behaviour
             | Some nd \<Rightarrow> (case maps s b of None \<Rightarrow> Inl undefined_behaviour
                 | Some m \<Rightarrow> if prev nd = Some (head m) then Inl invalid_iterator
                              else Inr (it\<lparr>node := prev nd\<rparr>)))"
        using n[where a=a and x="Inl undefined_behaviour"
              and f="\<lambda>d p x. (case maps s b of None \<Rightarrow> Inl undefined_behaviour
                 | Some m \<Rightarrow> if p = Some (head m) then Inl invalid_iterator
                              else Inr (it\<lparr>node := p\<rparr>))"]
          same_ends_case[OF mp[rule_format, of b], where x="Inl undefined_behaviour"
              and g="\<lambda>hd tl. if p = Some hd then Inl invalid_iterator else Inr (it\<lparr>node := p\<rparr>)" for p]
        by (simp only:)
      with \<open>node it = Some a\<close> Some show ?thesis
        by (simp add: iter_dec_def cong: option.case_cong)
    qed
  qed
  show "end_lhm this s' = end_lhm this s"
    unfolding end_lhm_def
    using same_ends_case[OF mp[rule_format, of this], where x="Inl undefined_behaviour" and g="\<lambda>hd tl. Inr \<lparr>node = Some tl, map_ptr = Some this\<rparr>"]
    by simp
  show "begin_lhm this s' = begin_lhm this s"
  proof -
    have "(case nodes s' a of None \<Rightarrow> Inl undefined_behaviour
           | Some hdn \<Rightarrow> Inr \<lparr>node = next hdn, map_ptr = Some this\<rparr>)
        = (case nodes s a of None \<Rightarrow> Inl undefined_behaviour
           | Some hdn \<Rightarrow> Inr \<lparr>node = next hdn, map_ptr = Some this\<rparr>)" for a
      using n[where a=a and x="Inl undefined_behaviour" and f="\<lambda>d p x. Inr \<lparr>node = x, map_ptr = Some this\<rparr>"]
      by simp
    then show ?thesis
      unfolding begin_lhm_def
      using same_ends_case[OF mp[rule_format, of this], where x="Inl undefined_behaviour"
          and g="\<lambda>hd tl. (case nodes s hd of None \<Rightarrow> Inl undefined_behaviour
           | Some hdn \<Rightarrow> Inr \<lparr>node = next hdn, map_ptr = Some this\<rparr>)"]
      by (simp only:)
  qed
qed

text \<open>
  C7. On a well-formed container, \<open>rehash\<close> to a positive bucket count \<open>nb\<close> returns; the
  container is still well formed on the same nodes \<open>ns\<close> with the same entries \<open>es\<close> in the same
  order; every node keeps its \<open>data\<close>, \<open>prev\<close> and \<open>next\<close> (only \<open>hash_next\<close> may change); no node
  is allocated; other containers are untouched; the container's record changes only in its
  bucket count and bucket array; \<open>begin\<close> and \<open>end\<close> are the same positions, and every position
  dereferences, increments and decrements exactly as before.
\<close>

theorem C7_rehash:
  assumes "lhm_inv hf s this ns es" and "0 < nb"
  shows "\<exists>s'. rehash hf this nb s = Some (Inr s')
           \<and> lhm_inv hf s' this ns es
           \<and> same_but_hash (nodes s) (nodes s')
           \<and> fresh s' = fresh s
           \<and> (\<forall>b. b \<noteq> this \<longrightarrow> maps s' b = maps s b)
           \<and> (\<exists>m bks. maps s this = Some m
                 \<and> maps s' this = Some (m\<lparr>bucket_count := nb, buckets := bks\<rparr>))
           \<and> begin_lhm this s' = begin_lhm this s \<and> end_lhm this s' = end_lhm this s
           \<and> (\<forall>it. iter_deref s' it = iter_deref s it \<and> iter_inc s' it = iter_inc s it
                  \<and> iter_dec s' it = iter_dec s it)"
proof -
  from rehash_inv[OF assms] obtain s' m bks where
    r: "rehash hf this nb s = Some (Inr s')" "lhm_inv hf s' this ns es"
      "same_but_hash (nodes s) (nodes s')" "fresh s' = fresh s"
      "\<forall>b. b \<noteq> this \<longrightarrow> maps s' b = maps s b"
      "maps s this = Some m" "maps s' this = Some (m\<lparr>bucket_count := nb, buckets := bks\<rparr>)"
    by (elim exE conjE)
  have mp: "\<forall>a. map_option (\<lambda>m. (head m, tail m)) (maps s' a)
                 = map_option (\<lambda>m. (head m, tail m)) (maps s a)"
  proof
    fix a show "map_option (\<lambda>m. (head m, tail m)) (maps s' a)
                 = map_option (\<lambda>m. (head m, tail m)) (maps s a)"
      using r(5,6,7) by (cases "a = this") simp_all
  qed
  note it = same_but_hash_iter[OF r(3) mp]
  have "\<exists>m bks. maps s this = Some m
                 \<and> maps s' this = Some (m\<lparr>bucket_count := nb, buckets := bks\<rparr>)"
    using r(6,7) by blast
  then show ?thesis
    using r(1-5) it by (intro exI[of _ s'] conjI allI) simp_all
qed

theorem C7_rehash_witness:
  "\<exists>s'. rehash id 100 32 one_map = Some (Inr s')
      \<and> lhm_inv id s' 100 [2] [(1, 10)]
      \<and> same_but_hash (nodes one_map) (nodes s')
      \<and> iter_deref s' \<lparr>node = Some 2, map_ptr = Some 100\<rparr>
          = iter_deref one_map \<lparr>node = Some 2, map_ptr = Some 100\<rparr>"
proof -
  have "(0::nat) < 32" by simp
  from C7_rehash[OF one_map_inv this] show ?thesis by blast
qed

lemma set_tl_subset: "x \<in> set (tl zs) \<Longrightarrow> x \<in> set zs"
  by (cases zs) auto

lemma links_remove:
  assumes l: "links nx pv (xs @ p # n # q # ys)" and d: "distinct (xs @ p # n # q # ys)"
  shows "links (nx(p := Some q)) (pv(q := Some p)) (xs @ p # q # ys)"
proof -
  let ?nx = "nx(p := Some q)" and ?pv = "pv(q := Some p)"
  from l links_append[of nx pv xs p "n # q # ys"]
  have l1: "links nx pv (xs @ [p])" and "links nx pv (p # n # q # ys)" by blast+
  then have l2: "links nx pv (q # ys)" by simp
  have "links ?nx pv (xs @ [p]) = links nx pv (xs @ [p])"
    using d by (intro links_nx_upd) simp
  moreover have "links ?nx ?pv (xs @ [p]) = links ?nx pv (xs @ [p])"
    using d by (intro links_pv_upd) (auto dest: set_tl_subset)
  ultimately have a: "links ?nx ?pv (xs @ [p])" using l1 by simp
  have "links ?nx pv (q # ys) = links nx pv (q # ys)"
    using d by (intro links_nx_upd) (auto dest: in_set_butlastD)
  moreover have "links ?nx ?pv (q # ys) = links ?nx pv (q # ys)"
    using d by (intro links_pv_upd) simp
  ultimately have b: "links ?nx ?pv (q # ys)" using l2 by simp
  have "links ?nx ?pv (p # q # ys)" using b by simp
  with a links_append[of ?nx ?pv xs p "q # ys"] show ?thesis by blast
qed

lemma path_split:
  "path m (ns1 @ n # ns2)
     = butlast (head m # ns1) @ last (head m # ns1) # n # hd (ns2 @ [tail m]) # tl (ns2 @ [tail m])"
proof -
  have "head m # ns1 = butlast (head m # ns1) @ [last (head m # ns1)]" by simp
  moreover have "ns2 @ [tail m] = hd (ns2 @ [tail m]) # tl (ns2 @ [tail m])" by simp
  ultimately have "(head m # ns1) @ n # (ns2 @ [tail m])
     = (butlast (head m # ns1) @ [last (head m # ns1)]) @ n # (hd (ns2 @ [tail m]) # tl (ns2 @ [tail m]))"
    by metis
  then show ?thesis by (simp add: path_def)
qed

lemma path_split':
  "path m (ns1 @ ns2)
     = butlast (head m # ns1) @ last (head m # ns1) # hd (ns2 @ [tail m]) # tl (ns2 @ [tail m])"
proof -
  have "head m # ns1 = butlast (head m # ns1) @ [last (head m # ns1)]" by simp
  moreover have "ns2 @ [tail m] = hd (ns2 @ [tail m]) # tl (ns2 @ [tail m])" by simp
  ultimately have "(head m # ns1) @ (ns2 @ [tail m])
     = (butlast (head m # ns1) @ [last (head m # ns1)]) @ (hd (ns2 @ [tail m]) # tl (ns2 @ [tail m]))"
    by metis
  then show ?thesis by (simp add: path_def)
qed

lemma wf_lists_erase:
  assumes wf: "wf_lists hf m nx pv hn en (ns1 @ n # ns2) (es1 @ e # es2)"
    and len: "length ns1 = length es1"
    and rest: "\<forall>j<bucket_count m. j \<noteq> hf (fst e) mod bucket_count m \<longrightarrow> bks' ! j = buckets m ! j"
    and lbk: "length bks' = length (buckets m)"
    and cs: "chain hn (buckets m ! (hf (fst e) mod bucket_count m)) (us @ n # vs)"
    and cs': "chain hn' (bks' ! (hf (fst e) mod bucket_count m)) (us @ vs)"
    and hn': "\<forall>a. a \<notin> set us \<longrightarrow> hn' a = hn a"
  defines "p \<equiv> last (head m # ns1)" and "q \<equiv> hd (ns2 @ [tail m])"
  shows "wf_lists hf (m\<lparr>buckets := bks', element_count := length (ns1 @ ns2)\<rparr>)
           ((nx(p := Some q))(n := None)) ((pv(q := Some p))(n := None))
           (hn'(n := None)) (en(n := None)) (ns1 @ ns2) (es1 @ es2)"
proof -
  let ?m' = "m\<lparr>buckets := bks', element_count := length (ns1 @ ns2)\<rparr>"
  let ?idx = "hf (fst e) mod bucket_count m"
  let ?bc = "bucket_count m"
  let ?en' = "en(n := None)"
  from wf have d: "distinct (path m (ns1 @ n # ns2))" and l: "links nx pv (path m (ns1 @ n # ns2))"
    and e: "en (head m) = None" "en (tail m) = None"
      "map en (ns1 @ n # ns2) = map Some (es1 @ e # es2)"
    and dk: "distinct (map fst (es1 @ e # es2))"
    and bc: "0 < ?bc" "length (buckets m) = ?bc"
    and bk: "\<forall>i<?bc. \<exists>cs. chain hn (buckets m ! i) cs
            \<and> set cs = {x \<in> set (ns1 @ n # ns2). slot hf ?bc en x = Some i}"
    by (simp_all add: wf_lists_def)
  have pm: "path ?m' ns = path m ns" for ns by (simp add: path_def)
  have sub: "set (path m (ns1 @ ns2)) \<subseteq> set (path m (ns1 @ n # ns2))"
    by (auto simp: path_def)
  have nn: "n \<notin> set (path m (ns1 @ ns2))" using d by (auto simp: path_def)
  have c1: "distinct (path m (ns1 @ ns2))" using d by (auto simp: path_def)
  have "links (nx(p := Some q)) (pv(q := Some p)) (path m (ns1 @ ns2))"
    unfolding path_split' p_def q_def
    by (rule links_remove) (use l d in \<open>simp_all only: path_split[symmetric]\<close>)
  moreover have "links ((nx(p := Some q))(n := None)) ((pv(q := Some p))(n := None)) (path m (ns1 @ ns2))
      = links (nx(p := Some q)) (pv(q := Some p)) (path m (ns1 @ ns2))"
    using nn by (intro links_cong) auto
  ultimately have c2: "links ((nx(p := Some q))(n := None)) ((pv(q := Some p))(n := None))
      (path m (ns1 @ ns2))" by simp
  have nh: "n \<noteq> head m" "n \<noteq> tail m" "n \<notin> set ns1" "n \<notin> set ns2"
    using d by (auto simp: path_def)
  have c3: "?en' (head m) = None" "?en' (tail m) = None" using e by simp_all
  from e(3) len have e1: "map en ns1 = map Some es1" and en: "en n = Some e"
    and e2: "map en ns2 = map Some es2" by simp_all
  have c4: "map ?en' (ns1 @ ns2) = map Some (es1 @ es2)"
    using e1 e2 nh by simp
  have c5: "distinct (map fst (es1 @ es2))" using dk by auto
  have sn: "slot hf ?bc en n = Some ?idx" using en by (simp add: slot_Some)
  have idx: "?idx < ?bc" using bc by simp
  from bk idx obtain cs0 where cs0: "chain hn (buckets m ! ?idx) cs0"
    "set cs0 = {x \<in> set (ns1 @ n # ns2). slot hf ?bc en x = Some ?idx}" by blast
  from chain_unique[OF cs cs0(1)] have cs0': "cs0 = us @ n # vs" by simp
  from chain_distinct[OF cs] have dc: "distinct (us @ n # vs)" .
  have sl: "slot hf ?bc ?en' x = slot hf ?bc en x" if "x \<noteq> n" for x
    using that by (rule slot_upd_other)
  have keep: "{x \<in> set (ns1 @ ns2). slot hf ?bc ?en' x = Some i}
      = {x \<in> set (ns1 @ n # ns2). slot hf ?bc en x = Some i} - {n}" for i
  proof -
    have "(x \<in> set (ns1 @ ns2) \<and> slot hf ?bc ?en' x = Some i)
        = (x \<in> set (ns1 @ n # ns2) \<and> slot hf ?bc en x = Some i \<and> x \<noteq> n)" for x
      using nh sl[of x] by (cases "x = n") auto
    then show ?thesis by blast
  qed
  have c6: "\<exists>cs. chain (hn'(n := None)) (bks' ! i) cs
            \<and> set cs = {x \<in> set (ns1 @ ns2). slot hf ?bc ?en' x = Some i}" if i: "i < ?bc" for i
  proof (cases "i = ?idx")
    case True
    have "n \<notin> set (us @ vs)" using dc by auto
    then have "chain (hn'(n := None)) (bks' ! ?idx) (us @ vs)"
      using cs' by (simp add: chain_upd)
    moreover have "set (us @ vs) = {x \<in> set (ns1 @ n # ns2). slot hf ?bc en x = Some ?idx} - {n}"
      using cs0(2) cs0' dc by auto
    ultimately have "chain (hn'(n := None)) (bks' ! i) (us @ vs)
            \<and> set (us @ vs) = {x \<in> set (ns1 @ ns2). slot hf ?bc ?en' x = Some i}"
      unfolding keep True by simp
    then show ?thesis by (rule exI)
  next
    case False
    from bk i obtain cs1 where cs1: "chain hn (buckets m ! i) cs1"
      "set cs1 = {x \<in> set (ns1 @ n # ns2). slot hf ?bc en x = Some i}" by blast
    have dis: "set cs1 \<inter> set (us @ n # vs) = {}"
    proof -
      have "x \<notin> set cs1" if "x \<in> set cs0" for x
      proof
        assume "x \<in> set cs1"
        with cs1(2) have "slot hf ?bc en x = Some i" by simp
        moreover from that cs0(2) have "slot hf ?bc en x = Some ?idx" by simp
        ultimately show False using False by simp
      qed
      then show ?thesis unfolding cs0'[symmetric] by blast
    qed
    then have "\<forall>a\<in>set cs1. (hn'(n := None)) a = hn a" using hn' by auto
    then have "chain (hn'(n := None)) (buckets m ! i) cs1 = chain hn (buckets m ! i) cs1"
      by (rule chain_cong)
    then have "chain (hn'(n := None)) (bks' ! i) cs1" using cs1(1) rest i False by simp
    moreover have "n \<notin> set cs1" using dis by auto
    then have "set cs1 = {x \<in> set (ns1 @ n # ns2). slot hf ?bc en x = Some i} - {n}"
      using cs1(2) by auto
    ultimately have "chain (hn'(n := None)) (bks' ! i) cs1
            \<and> set cs1 = {x \<in> set (ns1 @ ns2). slot hf ?bc ?en' x = Some i}"
      unfolding keep by simp
    then show ?thesis by (rule exI)
  qed
  show ?thesis
    unfolding wf_lists_def pm
    using c1 c2 c3 c4 c5 c6 bc lbk by simp
qed

lemma same_but_hash_hnx_other:
  "h a = Some nd \<Longrightarrow> x \<noteq> a \<Longrightarrow> (h(a \<mapsto> nd')) x = h x"
  by simp

lemma erase_loop_correct:
  assumes "load h bks l = Inr p0" "chain (hnx h) p0 (us @ n # vs)"
    "\<forall>a\<in>set (us @ [n]). h a \<noteq> None"
    "\<forall>a. l = Hash_next a \<longrightarrow> a \<notin> set (us @ n # vs)"
  shows "\<exists>h' bks'. erase_loop h bks n l = Some (Inr (h', bks'))
           \<and> same_but_hash h h'
           \<and> (\<forall>a. a \<notin> set us \<and> l \<noteq> Hash_next a \<longrightarrow> h' a = h a)
           \<and> length bks' = length bks
           \<and> (\<forall>j. l \<noteq> Bucket j \<longrightarrow> bks' ! j = bks ! j)
           \<and> (\<exists>p'. load h' bks' l = Inr p' \<and> chain (hnx h') p' (us @ vs))"
  using assms
proof (induction us arbitrary: l p0)
  case Nil
  from Nil.prems(2) have p0: "p0 = Some n" and ch: "chain (hnx h) (hnx h n) vs" by auto
  from Nil.prems(3) obtain nd where nd: "h n = Some nd" by auto
  then have hn: "hash_next nd = hnx h n" by (simp add: hnx_def)
  have dv: "n \<notin> set vs" using chain_distinct[OF Nil.prems(2)] by simp
  have step: "erase_loop h bks n l = Some (store h bks l (hnx h n))"
    using Nil.prems(1) p0 nd hn by (subst erase_loop.simps) simp
  show ?case
  proof (cases l)
    case (Bucket j)
    with Nil.prems(1) have j: "j < length bks"
      by (simp add: load_def split: if_splits)
    have "erase_loop h bks n l = Some (Inr (h, bks[j := hnx h n]))"
      using step Bucket j by (simp add: store_def)
    moreover have "load h (bks[j := hnx h n]) l = Inr (hnx h n)"
      using Bucket j by (simp add: load_def)
    ultimately show ?thesis
      using ch Bucket
      by (intro exI[of _ h] exI[of _ "bks[j := hnx h n]"] conjI allI impI exI[of _ "hnx h n"])
         (simp_all add: same_but_hash_refl)
  next
    case (Hash_next a)
    with Nil.prems(1) obtain ad where ad: "h a = Some ad"
      by (auto simp: load_def split: option.splits)
    define h' where "h' = h(a \<mapsto> ad\<lparr>hash_next := hnx h n\<rparr>)"
    from Nil.prems(4) Hash_next have av: "a \<notin> set vs" by simp
    have 1: "erase_loop h bks n l = Some (Inr (h', bks))"
      using step Hash_next ad by (simp add: store_def h'_def)
    have 2: "load h' bks l = Inr (hnx h n)"
      using Hash_next by (simp add: load_def h'_def)
    have 3: "chain (hnx h') (hnx h n) ([] @ vs)"
      using ch av by (simp add: chain_upd h'_def)
    have 4: "same_but_hash h h'" unfolding h'_def using ad by (rule same_but_hash_upd)
    have 5: "\<forall>x. x \<notin> set [] \<and> l \<noteq> Hash_next x \<longrightarrow> h' x = h x"
      using Hash_next by (simp add: h'_def)
    have 6: "\<forall>j. l \<noteq> Bucket j \<longrightarrow> bks ! j = bks ! j" by simp
    have 7: "\<exists>p'. load h' bks l = Inr p' \<and> chain (hnx h') p' ([] @ vs)"
      using 2 3 by blast
    show ?thesis
      using 1 4 5 6 7 by blast
  qed
next
  case (Cons u us)
  from Cons.prems(2) have p0: "p0 = Some u" and ch: "chain (hnx h) (hnx h u) (us @ n # vs)"
    by auto
  have d: "distinct ((u # us) @ n # vs)" using chain_distinct[OF Cons.prems(2)] .
  then have un: "u \<noteq> n" and uu: "u \<notin> set (us @ n # vs)" by auto
  from Cons.prems(3) obtain ud where ud: "h u = Some ud" by auto
  have step: "erase_loop h bks n l = erase_loop h bks n (Hash_next u)"
    using Cons.prems(1) p0 un by (subst erase_loop.simps) simp
  have lu: "load h bks (Hash_next u) = Inr (hnx h u)"
    using ud by (simp add: load_def hnx_def)
  have "\<exists>h' bks'. erase_loop h bks n (Hash_next u) = Some (Inr (h', bks'))
           \<and> same_but_hash h h'
           \<and> (\<forall>a. a \<notin> set us \<and> Hash_next u \<noteq> Hash_next a \<longrightarrow> h' a = h a)
           \<and> length bks' = length bks
           \<and> (\<forall>j. Hash_next u \<noteq> Bucket j \<longrightarrow> bks' ! j = bks ! j)
           \<and> (\<exists>p'. load h' bks' (Hash_next u) = Inr p' \<and> chain (hnx h') p' (us @ vs))"
  proof (rule Cons.IH[OF lu ch])
    show "\<forall>a\<in>set (us @ [n]). h a \<noteq> None" using Cons.prems(3) by simp
    show "\<forall>a. Hash_next u = Hash_next a \<longrightarrow> a \<notin> set (us @ n # vs)" using uu by simp
  qed
  then obtain h' bks' p' where
    r: "erase_loop h bks n (Hash_next u) = Some (Inr (h', bks'))"
    and sb: "same_but_hash h h'"
    and fr: "\<forall>a. a \<notin> set us \<and> Hash_next u \<noteq> Hash_next a \<longrightarrow> h' a = h a"
    and len: "length bks' = length bks"
    and bk: "\<forall>j. Hash_next u \<noteq> Bucket j \<longrightarrow> bks' ! j = bks ! j"
    and lp: "load h' bks' (Hash_next u) = Inr p'" and cp: "chain (hnx h') p' (us @ vs)"
    by (elim exE conjE)
  from lp have hu: "hnx h' u = p'"
    by (auto simp: load_def hnx_def split: option.splits)
  have l': "load h' bks' l = Inr (Some u)"
  proof (cases l)
    case (Bucket j)
    with Cons.prems(1) p0 have "j < length bks" "bks ! j = Some u"
      by (auto simp: load_def split: if_splits)
    then show ?thesis using Bucket len bk by (simp add: load_def)
  next
    case (Hash_next a)
    with Cons.prems(4) have a: "a \<notin> set us" "a \<noteq> u" by auto
    then have "h' a = h a" using fr by simp
    then show ?thesis using Cons.prems(1) p0 Hash_next by (simp add: load_def)
  qed
  have c: "chain (hnx h') (Some u) ((u # us) @ vs)" using cp hu by simp
  have f: "\<forall>a. a \<notin> set (u # us) \<and> l \<noteq> Hash_next a \<longrightarrow> h' a = h a" using fr by simp
  have b: "\<forall>j. l \<noteq> Bucket j \<longrightarrow> bks' ! j = bks ! j" using bk by simp
  have "erase_loop h bks n l = Some (Inr (h', bks'))" using step r by simp
  then show ?case
    using sb f len b l' c
    by (intro exI[of _ h'] exI[of _ bks'] conjI exI[of _ "Some u"]) simp_all
qed

lemma links_mid:
  assumes "links nx pv (xs @ p # n # q # ys)"
  shows "nx p = Some n \<and> pv n = Some p \<and> nx n = Some q \<and> pv q = Some n"
proof -
  from assms links_append[of nx pv xs p "n # q # ys"]
  have "links nx pv (p # n # q # ys)" by blast
  then show ?thesis by simp
qed

lemma erase_inv:
  assumes inv: "lhm_inv hf s this (ns1 @ n # ns2) (es1 @ e # es2)"
    and len: "length ns1 = length es1"
  shows "\<exists>s'. erase hf this \<lparr>node = Some n, map_ptr = Some this\<rparr> s = Some (Inr (), s')
           \<and> lhm_inv hf s' this (ns1 @ ns2) (es1 @ es2)
           \<and> frame s s' this (lhm_nodes s this (ns1 @ n # ns2))
           \<and> fresh s' = fresh s
           \<and> lhm_nodes s' this (ns1 @ ns2) = lhm_nodes s this (ns1 @ n # ns2) - {n}
           \<and> nodes s' n = None"
proof -
  from inv obtain m where m: "maps s this = Some m"
    and wf: "wf_lists hf m (nxt (nodes s)) (prv (nodes s)) (hnx (nodes s)) (ent (nodes s))
               (ns1 @ n # ns2) (es1 @ e # es2)"
    and bd: "\<forall>a\<in>set (path m (ns1 @ n # ns2)). a < fresh s"
    by (rule lhm_invD)
  define h where "h = nodes s"
  define p where "p = last (head m # ns1)"
  define q where "q = hd (ns2 @ [tail m])"
  define xs where "xs = butlast (head m # ns1)"
  define ys where "ys = tl (ns2 @ [tail m])"
  define idx where "idx = hf (fst e) mod bucket_count m"
  note wf = wf[folded h_def]
  have ps: "path m (ns1 @ n # ns2) = xs @ p # n # q # ys"
    unfolding xs_def p_def q_def ys_def by (rule path_split)
  from wf have d: "distinct (xs @ p # n # q # ys)" and l: "links (nxt h) (prv h) (xs @ p # n # q # ys)"
    and en: "map (ent h) (ns1 @ n # ns2) = map Some (es1 @ e # es2)"
    and bc: "0 < bucket_count m" "length (buckets m) = bucket_count m"
    and bk: "\<forall>i<bucket_count m. \<exists>cs. chain (hnx h) (buckets m ! i) cs
            \<and> set cs = {x \<in> set (ns1 @ n # ns2). slot hf (bucket_count m) (ent h) x = Some i}"
    and ec: "element_count m = length (ns1 @ n # ns2)"
    by (simp_all add: wf_lists_def ps[symmetric])
  from d have ne: "p \<noteq> n" "n \<noteq> q" "p \<noteq> q" by auto
  have "head m \<in> set (path m (ns1 @ n # ns2))" "tail m \<in> set (path m (ns1 @ n # ns2))"
    "distinct (path m (ns1 @ n # ns2))" using d by (simp_all add: ps[symmetric]) (simp_all add: path_def)
  then have nht: "n \<noteq> head m" "n \<noteq> tail m" by (auto simp: path_def)
  from links_mid[OF l] have lk: "nxt h p = Some n" "prv h n = Some p" "nxt h n = Some q"
    "prv h q = Some n" by simp_all
  from en len have e_n: "ent h n = Some e" by simp
  from lk(2) obtain nd where nd: "h n = Some nd" "prev nd = Some p" by (auto dest: prv_SomeD)
  with lk(3) e_n have nd': "next nd = Some q" "data nd = Some e" by (simp_all add: nxt_def ent_def)
  from lk(1) obtain pd where pd: "h p = Some pd" by (auto dest: nxt_SomeD)
  from lk(4) obtain qd where qd: "h q = Some qd" by (auto dest: prv_SomeD)
  define h2 where "h2 = h(p \<mapsto> pd\<lparr>next := Some q\<rparr>, q \<mapsto> qd\<lparr>prev := Some p\<rparr>)"
  have ul: "unlink h n = Inr h2"
    using nd nd' pd qd ne by (simp add: unlink_def h2_def)
  have v2: "nxt h2 = (nxt h)(p := Some q)" "prv h2 = (prv h)(q := Some p)"
    "hnx h2 = hnx h" "ent h2 = ent h"
    using pd qd ne unfolding h2_def
    by (auto simp: fun_eq_iff nxt_def prv_def hnx_def ent_def)
  have h2n: "h2 n = Some nd" using nd ne by (simp add: h2_def)
  have idx: "idx < bucket_count m" unfolding idx_def using bc by simp
  from bk idx obtain cs0 where cs0: "chain (hnx h) (buckets m ! idx) cs0"
    "set cs0 = {x \<in> set (ns1 @ n # ns2). slot hf (bucket_count m) (ent h) x = Some idx}" by blast
  have "slot hf (bucket_count m) (ent h) n = Some idx" using e_n by (simp add: slot_Some idx_def)
  then have "n \<in> set cs0" using cs0(2) by simp
  then obtain us vs where uv: "cs0 = us @ n # vs" by (auto simp: in_set_conv_decomp)
  have ch: "chain (hnx h2) (buckets m ! idx) (us @ n # vs)" using cs0(1) uv v2(3) by simp
  have usn: "set us \<subseteq> set (ns1 @ n # ns2)" using cs0(2) uv by auto
  have ex2: "\<forall>a\<in>set (us @ [n]). h2 a \<noteq> None"
  proof
    fix a assume "a \<in> set (us @ [n])"
    then have "a \<in> set (ns1 @ n # ns2)" using usn by auto
    from map_Some_mem[OF en this] have "ent h2 a \<noteq> None" by (simp add: v2)
    then show "h2 a \<noteq> None" by (auto simp: ent_def split: option.splits)
  qed
  have ld: "load h2 (buckets m) (Bucket idx) = Inr (buckets m ! idx)"
    using idx bc by (simp add: load_def)
  have "\<forall>a. Bucket idx = Hash_next a \<longrightarrow> a \<notin> set (us @ n # vs)" by simp
  from erase_loop_correct[OF ld ch ex2 this] obtain h3 bks' p' where
    el: "erase_loop h2 (buckets m) n (Bucket idx) = Some (Inr (h3, bks'))"
    and sb: "same_but_hash h2 h3"
    and fr3: "\<forall>a. a \<notin> set us \<and> Bucket idx \<noteq> Hash_next a \<longrightarrow> h3 a = h2 a"
    and lb: "length bks' = length (buckets m)"
    and ob: "\<forall>j. Bucket idx \<noteq> Bucket j \<longrightarrow> bks' ! j = buckets m ! j"
    and lp: "load h3 bks' (Bucket idx) = Inr p'" and cp: "chain (hnx h3) p' (us @ vs)"
    by (elim exE conjE)
  from lp have "p' = bks' ! idx" by (simp add: load_def split: if_splits)
  with cp have cp': "chain (hnx h3) (bks' ! idx) (us @ vs)" by simp
  have br: "bucket_remove hf m h2 n = Some (Inr (h3, bks'))"
    using h2n nd' bc el by (simp add: bucket_remove_def idx_def)
  define m' where "m' = m\<lparr>buckets := bks', element_count := length (ns1 @ ns2)\<rparr>"
  define s' where "s' = s\<lparr>nodes := h3(n := None), maps := (maps s)(this \<mapsto> m')\<rparr>"
  have run: "erase hf this \<lparr>node = Some n, map_ptr = Some this\<rparr> s = Some (Inr (), s')"
    using m nht ul br ec by (simp add: erase_def h_def[symmetric] s'_def m'_def)
  note v3 = same_but_hash_views[OF sb]
  have hn3: "\<forall>a. a \<notin> set us \<longrightarrow> hnx h3 a = hnx h a"
  proof (intro allI impI)
    fix a assume "a \<notin> set us"
    then have "h3 a = h2 a" using fr3 by simp
    then have "hnx h3 a = hnx h2 a" by (simp add: hnx_def)
    then show "hnx h3 a = hnx h a" by (simp only: v2(3))
  qed
  have rest: "\<forall>j<bucket_count m. j \<noteq> hf (fst e) mod bucket_count m \<longrightarrow> bks' ! j = buckets m ! j"
    using ob by (simp add: idx_def)
  have wf0: "wf_lists hf m'
           ((nxt h)(p := Some q, n := None)) ((prv h)(q := Some p, n := None))
           ((hnx h3)(n := None)) ((ent h)(n := None)) (ns1 @ ns2) (es1 @ es2)"
    unfolding m'_def p_def q_def
    by (rule wf_lists_erase[OF wf len rest lb ch[unfolded v2 idx_def] cp'[unfolded idx_def] hn3])
  have wf': "wf_lists hf m' (nxt (nodes s')) (prv (nodes s')) (hnx (nodes s')) (ent (nodes s'))
      (ns1 @ ns2) (es1 @ es2)"
    using wf0 by (simp add: s'_def v3 v2)
  have pm: "path m' zs = path m zs" for zs by (simp add: path_def m'_def)
  have sub: "set (path m (ns1 @ ns2)) \<subseteq> set (path m (ns1 @ n # ns2))" by (auto simp: path_def)
  have bd': "\<forall>a\<in>set (path m' (ns1 @ ns2)). a < fresh s'"
    using bd sub by (auto simp: pm s'_def)
  have ms': "maps s' this = Some m'" by (simp add: s'_def)
  have inv': "lhm_inv hf s' this (ns1 @ ns2) (es1 @ es2)"
    by (rule lhm_invI[OF ms' wf' bd'])
  have ln: "lhm_nodes s this (ns1 @ n # ns2) = set (path m (ns1 @ n # ns2))"
    using m by (simp add: lhm_nodes_def)
  have pin: "p \<in> set (path m (ns1 @ n # ns2))" "q \<in> set (path m (ns1 @ n # ns2))"
    "n \<in> set (path m (ns1 @ n # ns2))" by (simp_all add: ps)
  have usp: "set us \<subseteq> set (path m (ns1 @ n # ns2))" using usn by (auto simp: path_def)
  have fr: "frame s s' this (lhm_nodes s this (ns1 @ n # ns2))"
    unfolding frame_def ln
  proof (intro conjI allI impI)
    show "fresh s \<le> fresh s'" by (simp add: s'_def)
    fix b assume "b \<noteq> this" then show "maps s' b = maps s b" by (simp add: s'_def)
  next
    fix a assume a: "a \<notin> set (path m (ns1 @ n # ns2)) \<and> a < fresh s"
    then have "a \<notin> set us" "a \<noteq> p" "a \<noteq> q" "a \<noteq> n" using usp pin by auto
    then have "h3 a = h2 a" "h2 a = h a" using fr3 by (simp_all add: h2_def)
    then show "nodes s' a = nodes s a" using \<open>a \<noteq> n\<close> by (simp add: s'_def h_def)
  qed
  have ln': "lhm_nodes s' this (ns1 @ ns2) = lhm_nodes s this (ns1 @ n # ns2) - {n}"
    using d unfolding ln by (auto simp: lhm_nodes_def ms' pm ps[symmetric]) (auto simp: path_def)
  have "nodes s' n = None" "fresh s' = fresh s" by (simp_all add: s'_def)
  with run inv' fr ln' show ?thesis by blast
qed

lemma traverse_loop_correct:
  assumes "fwd (nxt (nodes s)) cur rs tln" "tln \<notin> set rs"
    "map (ent (nodes s)) rs = map Some res" "maps s this = Some m" "tail m = tln"
  shows "traverse_loop s \<lparr>node = cur, map_ptr = Some this\<rparr>
           \<lparr>node = Some tln, map_ptr = Some this\<rparr> acc = Some (Inr (rev acc @ res))"
  using assms(1,2,3)
proof (induction rs arbitrary: cur acc res)
  case Nil
  then show ?case by (subst traverse_loop.simps) (simp add: iter_neq_def iter_eq_def)
next
  case (Cons a rs)
  from Cons.prems(1) have cur: "cur = Some a" and fw: "fwd (nxt (nodes s)) (nxt (nodes s) a) rs tln"
    by auto
  from Cons.prems(2) have at: "a \<noteq> tln" and t: "tln \<notin> set rs" by auto
  from Cons.prems(3) obtain r res' where res: "res = r # res'" "ent (nodes s) a = Some r"
    "map (ent (nodes s)) rs = map Some res'" by (cases res) auto
  from res(2) obtain nd where nd: "nodes s a = Some nd" "data nd = Some r"
    by (auto dest: ent_SomeD)
  have nx: "next nd = nxt (nodes s) a" using nd by (simp add: nxt_def)
  have dr: "iter_deref s \<lparr>node = Some a, map_ptr = Some this\<rparr> = Inr r"
    using nd by (simp add: iter_deref_def)
  have inc: "iter_inc s \<lparr>node = Some a, map_ptr = Some this\<rparr>
       = Inr \<lparr>node = nxt (nodes s) a, map_ptr = Some this\<rparr>"
    using nd nx at assms(4,5) by (simp add: iter_inc_def)
  have ne: "iter_neq \<lparr>node = Some a, map_ptr = Some this\<rparr> \<lparr>node = Some tln, map_ptr = Some this\<rparr>"
    using at by (simp add: iter_neq_def iter_eq_def)
  have "traverse_loop s \<lparr>node = cur, map_ptr = Some this\<rparr>
           \<lparr>node = Some tln, map_ptr = Some this\<rparr> acc
      = traverse_loop s \<lparr>node = nxt (nodes s) a, map_ptr = Some this\<rparr>
           \<lparr>node = Some tln, map_ptr = Some this\<rparr> (r # acc)"
    using cur ne dr inc by (subst traverse_loop.simps) simp
  also have "\<dots> = Some (Inr (rev (r # acc) @ res'))"
    by (rule Cons.IH[OF fw t res(3)])
  finally show ?case using res(1) by simp
qed

lemma traverse_inv:
  assumes inv: "lhm_inv hf s this ns es"
  shows "traverse this s = Some (Inr es)"
proof -
  from inv obtain m where m: "maps s this = Some m"
    and wf: "wf_lists hf m (nxt (nodes s)) (prv (nodes s)) (hnx (nodes s)) (ent (nodes s)) ns es"
    by (rule lhm_invD)
  from wf have d: "distinct (path m ns)" and l: "links (nxt (nodes s)) (prv (nodes s)) (path m ns)"
    and e: "map (ent (nodes s)) ns = map Some es"
    by (simp_all add: wf_lists_def)
  from l have fw: "fwd (nxt (nodes s)) (nxt (nodes s) (head m)) ns (tail m)"
    unfolding path_def by (rule links_fwd)
  have "nxt (nodes s) (head m) \<noteq> None" using fw by (cases ns) auto
  then obtain hdn where hdn: "nodes s (head m) = Some hdn" "next hdn = nxt (nodes s) (head m)"
    by (auto simp: nxt_def split: option.splits)
  from d have t: "tail m \<notin> set ns" by (simp add: path_def)
  have b: "begin_lhm this s = Inr \<lparr>node = nxt (nodes s) (head m), map_ptr = Some this\<rparr>"
    using m hdn by (simp add: begin_lhm_def)
  have en: "end_lhm this s = Inr \<lparr>node = Some (tail m), map_ptr = Some this\<rparr>"
    using m by (simp add: end_lhm_def)
  from traverse_loop_correct[OF fw t e m refl, of "[]"] b en show ?thesis
    by (simp add: traverse_def)
qed

lemma find_lhm_inv:
  assumes inv: "lhm_inv hf s this ns es"
  shows "key \<notin> fst ` set es \<Longrightarrow> find_lhm hf this key s = Some (end_lhm this s)"
    and "key \<notin> fst ` set es \<Longrightarrow> \<exists>e. end_lhm this s = Inr e"
    and "i < length ns \<Longrightarrow>
         find_lhm hf this (fst (es ! i)) s = Some (Inr \<lparr>node = Some (ns ! i), map_ptr = Some this\<rparr>)"
proof -
  from inv obtain m where m: "maps s this = Some m" by (rule lhm_invD)
  then have e: "end_lhm this s = Inr \<lparr>node = Some (tail m), map_ptr = Some this\<rparr>"
    by (simp add: end_lhm_def)
  show "key \<notin> fst ` set es \<Longrightarrow> find_lhm hf this key s = Some (end_lhm this s)"
    using lookup_absent(1)[OF inv] e by (simp add: find_lhm_def)
  show "key \<notin> fst ` set es \<Longrightarrow> \<exists>e. end_lhm this s = Inr e" using e by simp
  show "i < length ns \<Longrightarrow>
         find_lhm hf this (fst (es ! i)) s = Some (Inr \<lparr>node = Some (ns ! i), map_ptr = Some this\<rparr>)"
    using lookup_present(1)[OF inv] by (simp add: find_lhm_def)
qed

lemma filter_key_remove:
  assumes "distinct (map fst (es1 @ e # es2))"
  shows "filter (\<lambda>kv. fst kv \<noteq> fst e) (es1 @ e # es2) = es1 @ es2"
proof -
  from assms have "fst e \<notin> fst ` set es1" "fst e \<notin> fst ` set es2" by auto
  then have "\<forall>x\<in>set es1. fst x \<noteq> fst e" "\<forall>x\<in>set es2. fst x \<noteq> fst e"
    by (metis imageI)+
  then have "filter (\<lambda>kv. fst kv \<noteq> fst e) es1 = es1" "filter (\<lambda>kv. fst kv \<noteq> fst e) es2 = es2"
    by (simp_all add: filter_id_conv)
  then show ?thesis by simp
qed

lemma inv_lengths:
  "lhm_inv hf s this ns es \<Longrightarrow> length es = length ns \<and> distinct (map fst es)"
  by (auto simp: lhm_inv_def wf_lists_def split: option.splits dest: map_eq_imp_length_eq)

lemma erase_found:
  assumes inv: "lhm_inv hf s this ns es" and i: "i < length ns"
  shows "\<exists>s'. erase hf this \<lparr>node = Some (ns ! i), map_ptr = Some this\<rparr> s = Some (Inr (), s')
           \<and> lhm_inv hf s' this (take i ns @ drop (Suc i) ns)
                 (filter (\<lambda>kv. fst kv \<noteq> fst (es ! i)) es)
           \<and> frame s s' this (lhm_nodes s this ns)
           \<and> fresh s' = fresh s
           \<and> lhm_nodes s' this (take i ns @ drop (Suc i) ns) = lhm_nodes s this ns - {ns ! i}
           \<and> nodes s' (ns ! i) = None"
proof -
  from inv_lengths[OF inv] have len: "length es = length ns" and dk: "distinct (map fst es)"
    by simp_all
  have nsd: "ns = take i ns @ ns ! i # drop (Suc i) ns" using i by (rule id_take_nth_drop)
  have esd: "es = take i es @ es ! i # drop (Suc i) es" using i len by (intro id_take_nth_drop) simp
  have l1: "length (take i ns) = length (take i es)" using len by simp
  from inv have inv0: "lhm_inv hf s this (take i ns @ ns ! i # drop (Suc i) ns)
      (take i es @ es ! i # drop (Suc i) es)"
    using nsd esd by simp
  have "filter (\<lambda>kv. fst kv \<noteq> fst (es ! i)) (take i es @ es ! i # drop (Suc i) es)
      = take i es @ drop (Suc i) es"
    using dk esd by (intro filter_key_remove) simp
  then have fl: "filter (\<lambda>kv. fst kv \<noteq> fst (es ! i)) es = take i es @ drop (Suc i) es"
    using esd by simp
  from erase_inv[OF inv0 l1] show ?thesis
    unfolding fl using nsd by simp
qed

lemma round_trip_at:
  assumes inv: "lhm_inv hf s this ns es" and i: "i < length ns"
  shows "find_lhm hf this (fst (es ! i)) s
           = Some (Inr \<lparr>node = Some (ns ! i), map_ptr = Some this\<rparr>)
         \<and> iter_deref s \<lparr>node = Some (ns ! i), map_ptr = Some this\<rparr> = Inr (es ! i)
         \<and> (\<exists>s'. erase hf this \<lparr>node = Some (ns ! i), map_ptr = Some this\<rparr> s = Some (Inr (), s')
               \<and> find_lhm hf this (fst (es ! i)) s' = Some (end_lhm this s')
               \<and> (\<exists>e. end_lhm this s' = Inr e))"
proof -
  from lookup_present(3)[OF inv i] have dr:
    "iter_deref s \<lparr>node = Some (ns ! i), map_ptr = Some this\<rparr> = Inr (es ! i)"
    by (auto simp: iter_deref_def)
  from erase_found[OF inv i] obtain s' where
    er: "erase hf this \<lparr>node = Some (ns ! i), map_ptr = Some this\<rparr> s = Some (Inr (), s')"
    and inv': "lhm_inv hf s' this (take i ns @ drop (Suc i) ns)
                 (filter (\<lambda>kv. fst kv \<noteq> fst (es ! i)) es)"
    by (elim exE conjE)
  have ab: "fst (es ! i) \<notin> fst ` set (filter (\<lambda>kv. fst kv \<noteq> fst (es ! i)) es)" by auto
  from find_lhm_inv(1,2)[OF inv' ab] er find_lhm_inv(3)[OF inv i] dr show ?thesis by blast
qed

lemma erase_end_throws:
  assumes "maps s this = Some m"
  shows "erase hf this \<lparr>node = Some (tail m), map_ptr = Some this\<rparr> s = Some (Inl invalid_iterator, s)"
  using assms by (simp add: erase_def)

lemma run_op_inv:
  assumes inv: "lhm_inv hf s this ns es"
  shows "\<exists>s' ns'. run_op hf this x s = Some (Inr s') \<and> lhm_inv hf s' this ns' (spec_op x es)"
proof (cases x)
  case (Insert k v)
  show ?thesis
  proof (cases "k \<in> fst ` set es")
    case True
    then obtain w where "map_of es k = Some w"
      by (cases "map_of es k") (auto simp: map_of_eq_None_iff)
    from present_index[OF inv this] obtain i where i: "i < length ns" "es ! i = (k, w)" by blast
    from insert_present[OF inv i(1), of v] i(2)
    have "run_op hf this x s = Some (Inr s)" using Insert by simp
    moreover have "spec_op x es = es" using Insert True by simp
    ultimately show ?thesis using inv by auto
  next
    case False
    from insert_absent[OF inv False, of v] obtain s' where
      "insert_lhm hf this (k, v) s
         = Some (Inr ((\<lparr>node = Some (fresh s), map_ptr = Some this\<rparr>, True), s'))"
      "lhm_inv hf s' this (ns @ [fresh s]) (es @ [(k, v)])" by (elim exE conjE)
    moreover have "spec_op x es = es @ [(k, v)]" using Insert False by simp
    ultimately show ?thesis using Insert by auto
  qed
next
  case (Erase k)
  show ?thesis
  proof (cases "k \<in> fst ` set es")
    case True
    then obtain w where "map_of es k = Some w"
      by (cases "map_of es k") (auto simp: map_of_eq_None_iff)
    from present_index[OF inv this] obtain i where i: "i < length ns" "es ! i = (k, w)" by blast
    from find_lhm_inv(3)[OF inv i(1)] i(2)
    have f: "find_lhm hf this k s = Some (Inr \<lparr>node = Some (ns ! i), map_ptr = Some this\<rparr>)"
      by simp
    from erase_found[OF inv i(1)] i(2) obtain s' where
      "erase hf this \<lparr>node = Some (ns ! i), map_ptr = Some this\<rparr> s = Some (Inr (), s')"
      "lhm_inv hf s' this (take i ns @ drop (Suc i) ns) (filter (\<lambda>kv. fst kv \<noteq> k) es)"
      by auto
    then show ?thesis using f Erase by auto
  next
    case False
    from inv obtain m where m: "maps s this = Some m" by (rule lhm_invD)
    from find_lhm_inv(1)[OF inv False] m
    have f: "find_lhm hf this k s = Some (Inr \<lparr>node = Some (tail m), map_ptr = Some this\<rparr>)"
      by (simp add: end_lhm_def)
    have "\<forall>kv\<in>set es. fst kv \<noteq> k" using False by (metis imageI)
    then have "spec_op x es = es" using Erase by (simp add: filter_id_conv)
    moreover have "run_op hf this x s = Some (Inr s)"
      using Erase f erase_end_throws[OF m, of hf] by simp
    ultimately show ?thesis using inv by auto
  qed
qed

lemma run_ops_inv:
  assumes "lhm_inv hf s this ns es"
  shows "\<exists>s' ns'. run_ops hf this ops s = Some (Inr s')
           \<and> lhm_inv hf s' this ns' (spec_ops ops es)"
  using assms
proof (induction ops arbitrary: s ns es)
  case Nil
  then show ?case by auto
next
  case (Cons x ops)
  from run_op_inv[OF Cons.prems, of x] obtain s1 ns1 where
    1: "run_op hf this x s = Some (Inr s1)" "lhm_inv hf s1 this ns1 (spec_op x es)" by blast
  from Cons.IH[OF 1(2)] obtain s' ns' where
    "run_ops hf this ops s1 = Some (Inr s')" "lhm_inv hf s' this ns' (spec_ops ops (spec_op x es))"
    by blast
  then show ?case using 1(1) by auto
qed

text \<open>
  C3. Every sequence \<open>ops\<close> of insertions and erasures by key, run on a freshly constructed
  container, returns, and the traversal from \<open>begin\<close> to \<open>end\<close> of the result visits exactly
  \<open>spec_ops ops []\<close>: the surviving entries in the order of their first successful insertion,
  where inserting a key that is present changes nothing and erasing removes the entry.
\<close>

theorem C3_insertion_order:
  "\<exists>s'. run_ops hf this ops (construct this s0) = Some (Inr s')
        \<and> traverse this s' = Some (Inr (spec_ops ops []))"
proof -
  have "lhm_inv hf (construct this s0) this [] []" using construct_inv[of hf this s0] by simp
  from run_ops_inv[OF this, of ops] obtain s' ns' where
    r: "run_ops hf this ops (construct this s0) = Some (Inr s')"
    "lhm_inv hf s' this ns' (spec_ops ops [])" by blast
  from traverse_inv[OF r(2)] r(1) show ?thesis by blast
qed

theorem C3_insertion_order_witness:
  "\<exists>s'. run_ops id 100 [Insert 1 10, Insert 2 20, Insert 3 30, Insert 2 40, Insert 4 50, Erase 2]
           (construct 100 empty_state) = Some (Inr s')
        \<and> traverse 100 s' = Some (Inr [(1, 10), (3, 30), (4, 50 :: nat)])"
  using C3_insertion_order[of id 100
      "[Insert 1 10, Insert 2 20, Insert 3 30, Insert 2 40, Insert 4 50, Erase 2]" empty_state]
  by simp

text \<open>
  C4. On a well-formed container holding the entries \<open>es\<close>, \<open>insert\<close> of \<open>(k, v)\<close> returns a
  position and a flag that is true exactly when \<open>k\<close> was absent; afterwards \<open>find\<close> of \<open>k\<close>
  returns that position, whose entry is \<open>k\<close> with the value stored for it (\<open>v\<close> when \<open>k\<close> was
  absent, the old value otherwise); \<open>erase\<close> at that position returns, and afterwards \<open>find\<close>
  of \<open>k\<close> returns the past-the-end position.
\<close>

theorem C4_round_trip:
  assumes "lhm_inv hf s this ns es"
  shows "\<exists>it b s'. insert_lhm hf this (k, v) s = Some (Inr ((it, b), s'))
           \<and> (b \<longleftrightarrow> map_of es k = None)
           \<and> find_lhm hf this k s' = Some (Inr it)
           \<and> iter_deref s' it = Inr (k, case map_of es k of None \<Rightarrow> v | Some w \<Rightarrow> w)
           \<and> (\<exists>s''. erase hf this it s' = Some (Inr (), s'')
                 \<and> find_lhm hf this k s'' = Some (end_lhm this s'')
                 \<and> (\<exists>e. end_lhm this s'' = Inr e))"
proof (cases "map_of es k")
  case None
  then have ab: "k \<notin> fst ` set es" by (simp add: map_of_eq_None_iff)
  from insert_absent[OF assms ab, of v] obtain s' where
    ins: "insert_lhm hf this (k, v) s
         = Some (Inr ((\<lparr>node = Some (fresh s), map_ptr = Some this\<rparr>, True), s'))"
    and inv': "lhm_inv hf s' this (ns @ [fresh s]) (es @ [(k, v)])" by (elim exE conjE)
  from inv_lengths[OF assms] have len: "length es = length ns" by simp
  have i: "length ns < length (ns @ [fresh s])" by simp
  have n: "(ns @ [fresh s]) ! length ns = fresh s" by simp
  have e: "(es @ [(k, v)]) ! length ns = (k, v)" using len by (metis nth_append_length)
  from round_trip_at[OF inv' i] ins None show ?thesis
    unfolding n e by (intro exI[of _ "\<lparr>node = Some (fresh s), map_ptr = Some this\<rparr>"]
        exI[of _ True] exI[of _ s']) simp
next
  case (Some w)
  from present_index[OF assms Some] obtain i where i: "i < length ns" "es ! i = (k, w)" by blast
  from insert_present[OF assms i(1), of v] i(2)
  have ins: "insert_lhm hf this (k, v) s
      = Some (Inr ((\<lparr>node = Some (ns ! i), map_ptr = Some this\<rparr>, False), s))" by simp
  from round_trip_at[OF assms i(1)] ins Some show ?thesis
    unfolding i(2) by (intro exI[of _ "\<lparr>node = Some (ns ! i), map_ptr = Some this\<rparr>"]
        exI[of _ False] exI[of _ s]) simp
qed

theorem C4_round_trip_witness:
  "\<exists>it b s'. insert_lhm id 100 (7, 70) one_map = Some (Inr ((it, b), s'))
           \<and> b
           \<and> find_lhm id 100 7 s' = Some (Inr it)
           \<and> iter_deref s' it = Inr (7, 70)
           \<and> (\<exists>s''. erase id 100 it s' = Some (Inr (), s'')
                 \<and> find_lhm id 100 7 s'' = Some (end_lhm 100 s''))"
proof -
  have "map_of [(1, 10 :: nat)] (7 :: nat) = None" by simp
  with C4_round_trip[OF one_map_inv, of 7 70] show ?thesis by auto
qed

text \<open>
  C1, as stated, fails. \<open>insert\<close> calls \<open>check_and_rehash\<close> before \<open>++element_count\<close>, so the
  test \<open>element_count > bucket_count * 0.75\<close> sees the size before the insertion. Inserting
  the thirteen distinct keys \<open>0, \<dots>, 12\<close> into a freshly constructed container returns with
  \<open>size() = 13\<close> and \<open>bucket_count = 16\<close>: the thirteenth insertion found \<open>12 \<le> 12\<close>, did not
  rehash, and left \<open>13 > 16 * 0.75\<close>, so the load-factor bound does not hold after it.
\<close>

theorem C1_load_factor_exceeded:
  "(case run_ops id 100 thirteen_inserts (construct 100 empty_state) of
      Some (Inr s') \<Rightarrow>
        (size_lhm 100 s', map_option bucket_count (maps s' 100), load_factor_bound 100 s')
    | _ \<Rightarrow> (Inl undefined_behaviour, None, True))
   = (Inr 13, Some 16, False)"
  by code_simp

lemma wf_lists_cong:
  assumes eq: "\<forall>a\<in>set (path m ns). nx' a = nx a \<and> pv' a = pv a \<and> hn' a = hn a \<and> en' a = en a"
    and wf: "wf_lists hf m nx pv hn en ns es"
  shows "wf_lists hf m nx' pv' hn' en' ns es"
proof -
  from wf have d: "distinct (path m ns)" and l: "links nx pv (path m ns)"
    and e: "en (head m) = None" "en (tail m) = None" "map en ns = map Some es"
    and dk: "distinct (map fst es)"
    and bc: "0 < bucket_count m" "length (buckets m) = bucket_count m"
    and bk: "\<forall>i<bucket_count m. \<exists>cs. chain hn (buckets m ! i) cs
            \<and> set cs = {x \<in> set ns. slot hf (bucket_count m) en x = Some i}"
    and ec: "element_count m = length ns"
    by (simp_all add: wf_lists_def)
  have nsp: "set ns \<subseteq> set (path m ns)" by (auto simp: path_def)
  have "links nx' pv' (path m ns) = links nx pv (path m ns)"
    using eq by (intro links_cong) simp
  with l have c2: "links nx' pv' (path m ns)" by simp
  have c3: "en' (head m) = None" "en' (tail m) = None"
    using eq e by (simp_all add: path_def)
  have "map en' ns = map en ns" using eq nsp by (intro map_cong refl) auto
  with e have c4: "map en' ns = map Some es" by simp
  have sl: "{x \<in> set ns. slot hf (bucket_count m) en' x = Some i}
      = {x \<in> set ns. slot hf (bucket_count m) en x = Some i}" for i
  proof (intro Collect_cong conj_cong refl)
    fix x assume "x \<in> set ns"
    then have "en' x = en x" using eq nsp by auto
    then show "(slot hf (bucket_count m) en' x = Some i) = (slot hf (bucket_count m) en x = Some i)"
      by (simp add: slot_def)
  qed
  have c6: "\<exists>cs. chain hn' (buckets m ! i) cs
            \<and> set cs = {x \<in> set ns. slot hf (bucket_count m) en' x = Some i}"
    if "i < bucket_count m" for i
  proof -
    from bk that obtain cs where cs: "chain hn (buckets m ! i) cs"
      "set cs = {x \<in> set ns. slot hf (bucket_count m) en x = Some i}" by blast
    then have "set cs \<subseteq> set (path m ns)" using nsp by auto
    then have "\<forall>a\<in>set cs. hn' a = hn a" using eq by auto
    then have "chain hn' (buckets m ! i) cs = chain hn (buckets m ! i) cs" by (rule chain_cong)
    with cs have "chain hn' (buckets m ! i) cs
            \<and> set cs = {x \<in> set ns. slot hf (bucket_count m) en' x = Some i}"
      unfolding sl by simp
    then show ?thesis by (rule exI)
  qed
  show ?thesis unfolding wf_lists_def using d c2 c3 c4 dk bc c6 ec by simp
qed

lemma inv_frame:
  assumes inv: "lhm_inv hf s other ons oes" and fr: "frame s s' this A"
    and ne: "other \<noteq> this" and dis: "lhm_nodes s other ons \<inter> A = {}"
  shows "lhm_inv hf s' other ons oes" "lhm_nodes s' other ons = lhm_nodes s other ons"
    "maps s' other = maps s other" "\<forall>a\<in>lhm_nodes s other ons. nodes s' a = nodes s a"
proof -
  from inv obtain om where om: "maps s other = Some om"
    and wf: "wf_lists hf om (nxt (nodes s)) (prv (nodes s)) (hnx (nodes s)) (ent (nodes s)) ons oes"
    and bd: "\<forall>a\<in>set (path om ons). a < fresh s"
    by (rule lhm_invD)
  from fr ne show ms: "maps s' other = maps s other" by (simp add: frame_def)
  with om have om': "maps s' other = Some om" by simp
  have ln: "lhm_nodes s other ons = set (path om ons)" using om by (simp add: lhm_nodes_def)
  show "lhm_nodes s' other ons = lhm_nodes s other ons"
    using om om' by (simp add: lhm_nodes_def)
  have same: "nodes s' a = nodes s a" if "a \<in> set (path om ons)" for a
  proof -
    from that dis ln have "a \<notin> A" by auto
    moreover from that bd have "a < fresh s" by simp
    ultimately show ?thesis using fr by (simp add: frame_def)
  qed
  then show "\<forall>a\<in>lhm_nodes s other ons. nodes s' a = nodes s a" using ln by simp
  have "\<forall>a\<in>set (path om ons). nxt (nodes s') a = nxt (nodes s) a \<and> prv (nodes s') a = prv (nodes s) a
      \<and> hnx (nodes s') a = hnx (nodes s) a \<and> ent (nodes s') a = ent (nodes s) a"
    using same by (simp add: nxt_def prv_def hnx_def ent_def)
  from wf_lists_cong[OF this wf]
  have wf': "wf_lists hf om (nxt (nodes s')) (prv (nodes s')) (hnx (nodes s')) (ent (nodes s')) ons oes" .
  have "fresh s \<le> fresh s'" using fr by (simp add: frame_def)
  with bd have bd': "\<forall>a\<in>set (path om ons). a < fresh s'" by auto
  show "lhm_inv hf s' other ons oes" by (rule lhm_invI[OF om' wf' bd'])
qed

lemma clear_loop_correct:
  assumes "fwd (nxt h) cur rs tln" "distinct rs" "tln \<notin> set rs" "\<forall>a\<in>set rs. h a \<noteq> None"
  shows "clear_loop tln h cur = Some (Inr (h |` (- set rs)))"
  using assms
proof (induction rs arbitrary: h cur)
  case Nil
  then show ?case by (subst clear_loop.simps) (simp add: restrict_map_def)
next
  case (Cons c rs)
  from Cons.prems have cur: "cur = Some c" and ct: "c \<noteq> tln"
    and fw: "fwd (nxt h) (nxt h c) rs tln" and d: "distinct rs" "c \<notin> set rs" "tln \<notin> set rs"
    by auto
  from Cons.prems obtain nd where nd: "h c = Some nd" by auto
  then have nx: "next nd = nxt h c" by (simp add: nxt_def)
  have step: "clear_loop tln h cur = clear_loop tln (h(c := None)) (nxt h c)"
    using cur ct nd nx by (subst clear_loop.simps) simp
  have "fwd (nxt (h(c := None))) (nxt h c) rs tln = fwd (nxt h) (nxt h c) rs tln"
    using d(2) by (intro fwd_cong) auto
  with fw have fw': "fwd (nxt (h(c := None))) (nxt h c) rs tln" by simp
  have ex: "\<forall>a\<in>set rs. (h(c := None)) a \<noteq> None" using Cons.prems(4) d(2) by auto
  have "clear_loop tln (h(c := None)) (nxt h c) = Some (Inr ((h(c := None)) |` (- set rs)))"
    by (rule Cons.IH[OF fw' d(1) d(3) ex])
  moreover have "(h(c := None)) |` (- set rs) = h |` (- set (c # rs))"
    by (rule ext) (simp add: restrict_map_def)
  ultimately show ?case using step by simp
qed

lemma empty_wf:
  assumes "hda \<noteq> tla" "nx hda = Some tla" "pv tla = Some hda" "en hda = None" "en tla = None" "0 < bc"
  shows "wf_lists hf \<lparr>head = hda, tail = tla, buckets = replicate bc None, bucket_count = bc,
            element_count = 0\<rparr> nx pv hn en [] []"
proof -
  have "\<exists>cs. chain hn (replicate bc None ! i) cs \<and> set cs = {x \<in> set []. P x}"
    if "i < bc" for i and P :: "addr \<Rightarrow> bool"
    using that by (intro exI[of _ "[]"]) simp
  then show ?thesis
    unfolding wf_lists_def using assms by (simp add: path_def)
qed

lemma clear_inv:
  assumes inv: "lhm_inv hf s this ns es"
  shows "\<exists>s'. clear this s = Some (Inr s')
           \<and> lhm_inv hf s' this [] []
           \<and> frame s s' this (lhm_nodes s this ns)
           \<and> fresh s' = fresh s
           \<and> lhm_nodes s' this [] \<subseteq> lhm_nodes s this ns
           \<and> map_option bucket_count (maps s' this) = map_option bucket_count (maps s this)"
proof -
  from inv obtain m where m: "maps s this = Some m"
    and wf: "wf_lists hf m (nxt (nodes s)) (prv (nodes s)) (hnx (nodes s)) (ent (nodes s)) ns es"
    and bd: "\<forall>a\<in>set (path m ns). a < fresh s"
    by (rule lhm_invD)
  define h where "h = nodes s"
  note wf = wf[folded h_def]
  from wf have d: "distinct (path m ns)" and l: "links (nxt h) (prv h) (path m ns)"
    and e: "ent h (head m) = None" "ent h (tail m) = None" "map (ent h) ns = map Some es"
    and bc: "0 < bucket_count m" "length (buckets m) = bucket_count m"
    by (simp_all add: wf_lists_def)
  from l have fw: "fwd (nxt h) (nxt h (head m)) ns (tail m)"
    unfolding path_def by (rule links_fwd)
  have "nxt h (head m) \<noteq> None" using fw by (cases ns) auto
  then obtain hdn where hdn: "h (head m) = Some hdn" "next hdn = nxt h (head m)"
    by (auto simp: nxt_def split: option.splits)
  from wf_lists_nodes[OF wf] obtain td where td: "h (tail m) = Some td" by blast
  from d have d': "distinct ns" "tail m \<notin> set ns" "head m \<notin> set ns" "head m \<noteq> tail m"
    by (simp_all add: path_def)
  have ex: "\<forall>a\<in>set ns. h a \<noteq> None"
  proof
    fix a assume "a \<in> set ns"
    from map_Some_mem[OF e(3) this] show "h a \<noteq> None" by (auto simp: ent_def split: option.splits)
  qed
  define h1 where "h1 = h |` (- set ns)"
  have cl: "clear_loop (tail m) h (nxt h (head m)) = Some (Inr h1)"
    unfolding h1_def by (rule clear_loop_correct[OF fw d'(1,2) ex])
  have h1h: "h1 (head m) = Some hdn" "h1 (tail m) = Some td"
    using hdn td d' by (simp_all add: h1_def restrict_map_def)
  define h3 where "h3 = h1(head m \<mapsto> hdn\<lparr>next := Some (tail m)\<rparr>, tail m \<mapsto> td\<lparr>prev := Some (head m)\<rparr>)"
  define m' where "m' = \<lparr>head = head m, tail = tail m, buckets = replicate (bucket_count m) None,
      bucket_count = bucket_count m, element_count = 0\<rparr>"
  define s' where "s' = s\<lparr>nodes := h3, maps := (maps s)(this \<mapsto> m')\<rparr>"
  have mm: "m\<lparr>element_count := 0,
              buckets := replicate (bucket_count m) None @ drop (bucket_count m) (buckets m)\<rparr> = m'"
    using bc by (simp add: m'_def)
  have run: "clear this s = Some (Inr s')"
    using m hdn cl h1h d' bc mm
    by (simp add: clear_def h_def[symmetric] s'_def h3_def)
  have dh: "data hdn = None" "data td = None" using e hdn td by (simp_all add: ent_def)
  have v: "nxt h3 (head m) = Some (tail m)" "prv h3 (tail m) = Some (head m)"
    "ent h3 (head m) = None" "ent h3 (tail m) = None"
    using d' dh by (simp_all add: h3_def nxt_def prv_def ent_def)
  have wf': "wf_lists hf m' (nxt h3) (prv h3) (hnx h3) (ent h3) [] []"
    unfolding m'_def
    by (rule empty_wf[where nx="nxt h3" and pv="prv h3" and en="ent h3", OF d'(4) v bc(1)])
  have ms': "maps s' this = Some m'" by (simp add: s'_def)
  have p': "path m' [] = [head m, tail m]" by (simp add: path_def m'_def)
  have bd': "\<forall>a\<in>set (path m' []). a < fresh s'"
    using bd by (simp add: s'_def path_def m'_def)
  have inv': "lhm_inv hf s' this [] []"
    by (rule lhm_invI[OF ms' _ bd']) (simp add: s'_def wf')
  have ln: "lhm_nodes s this ns = set (path m ns)" using m by (simp add: lhm_nodes_def)
  have fr: "frame s s' this (lhm_nodes s this ns)"
    unfolding frame_def ln
  proof (intro conjI allI impI)
    show "fresh s \<le> fresh s'" by (simp add: s'_def)
    fix b assume "b \<noteq> this" then show "maps s' b = maps s b" by (simp add: s'_def)
  next
    fix a assume "a \<notin> set (path m ns) \<and> a < fresh s"
    then have "a \<noteq> head m" "a \<noteq> tail m" "a \<notin> set ns" by (auto simp: path_def)
    then show "nodes s' a = nodes s a"
      by (simp add: s'_def h3_def h1_def h_def restrict_map_def)
  qed
  have sub: "lhm_nodes s' this [] \<subseteq> lhm_nodes s this ns"
    unfolding ln by (simp add: lhm_nodes_def ms' path_def m'_def)
  have "fresh s' = fresh s" by (simp add: s'_def)
  moreover have "map_option bucket_count (maps s' this) = map_option bucket_count (maps s this)"
    using m ms' by (simp add: m'_def)
  ultimately show ?thesis using run inv' fr sub by blast
qed

lemma frame_trans:
  assumes "frame s s1 this A" "frame s1 s2 this B" "B \<subseteq> A \<union> {a. fresh s \<le> a}"
  shows "frame s s2 this A"
  unfolding frame_def
proof (intro conjI allI impI)
  show "fresh s \<le> fresh s2" using assms(1,2) by (simp add: frame_def)
  fix b assume "b \<noteq> this"
  then show "maps s2 b = maps s b" using assms(1,2) by (simp add: frame_def)
next
  fix a assume a: "a \<notin> A \<and> a < fresh s"
  then have "nodes s1 a = nodes s a" using assms(1) by (simp add: frame_def)
  moreover have "a \<notin> B" using a assms(3) by auto
  moreover have "a < fresh s1" using a assms(1) by (simp add: frame_def)
  ultimately show "nodes s2 a = nodes s a" using assms(2) by (simp add: frame_def)
qed

lemma frame_refl: "frame s s this A"
  by (simp add: frame_def)

lemma copy_loop_correct:
  assumes ne: "this \<noteq> other"
    and om: "maps s other = Some om"
    and inv_o: "lhm_inv hf s other ons oes"
    and inv_t: "lhm_inv hf s this tns tes"
    and dis: "lhm_nodes s other ons \<inter> lhm_nodes s this tns = {}"
    and fw: "fwd (nxt (nodes s)) cur rs (tail om)"
    and t: "tail om \<notin> set rs"
    and sub: "set rs \<subseteq> lhm_nodes s other ons"
    and en: "map (ent (nodes s)) rs = map Some res"
    and dk: "distinct (map fst res)"
    and kd: "fst ` set res \<inter> fst ` set tes = {}"
  shows "\<exists>s' tns'. copy_loop hf this other s cur = Some (Inr s')
      \<and> lhm_inv hf s' this tns' (tes @ res)
      \<and> frame s s' this (lhm_nodes s this tns)
      \<and> lhm_nodes s' this tns' \<subseteq> lhm_nodes s this tns \<union> {a. fresh s \<le> a}"
  using om inv_o inv_t dis fw t sub en dk kd
proof (induction rs arbitrary: s cur tns tes res)
  case Nil
  then have "copy_loop hf this other s cur = Some (Inr s)"
    by (subst copy_loop.simps) simp
  moreover from Nil have "res = []" by simp
  ultimately show ?case using Nil.prems(3) frame_refl by fastforce
next
  case (Cons c rs)
  note om = Cons.prems(1) and inv_o = Cons.prems(2) and inv_t = Cons.prems(3)
    and dis = Cons.prems(4)
  from Cons.prems(5) have cur: "cur = Some c"
    and fw: "fwd (nxt (nodes s)) (nxt (nodes s) c) rs (tail om)" by auto
  from Cons.prems(6) have ct: "c \<noteq> tail om" and t: "tail om \<notin> set rs" by auto
  from Cons.prems(7) have co: "c \<in> lhm_nodes s other ons" and sub: "set rs \<subseteq> lhm_nodes s other ons"
    by auto
  from Cons.prems(8) obtain r res' where res: "res = r # res'" "ent (nodes s) c = Some r"
    "map (ent (nodes s)) rs = map Some res'" by (cases res) auto
  from Cons.prems(9) res(1) have dk: "distinct (map fst res')" and rk: "fst r \<notin> fst ` set res'"
    by auto
  from Cons.prems(10) res(1) have k: "fst r \<notin> fst ` set tes"
    and kd: "fst ` set res' \<inter> fst ` set tes = {}" by auto
  from res(2) obtain nd where nd: "nodes s c = Some nd" "data nd = Some r"
    by (auto dest: ent_SomeD)
  from insert_absent[OF inv_t k, of "snd r"] obtain s1 where
    ins: "insert_lhm hf this r s
            = Some (Inr ((\<lparr>node = Some (fresh s), map_ptr = Some this\<rparr>, True), s1))"
    and inv_t1: "lhm_inv hf s1 this (tns @ [fresh s]) (tes @ [r])"
    and fr1: "frame s s1 this (lhm_nodes s this tns)"
    and f1: "fresh s1 = Suc (fresh s)"
    and ln1: "lhm_nodes s1 this (tns @ [fresh s]) = insert (fresh s) (lhm_nodes s this tns)"
    by auto
  note fo = inv_frame[OF inv_o fr1 ne[symmetric] dis]
  have om1: "maps s1 other = Some om" using fo(3) om by simp
  have c1: "nodes s1 c = Some nd" using fo(4) co nd by simp
  have step: "copy_loop hf this other s cur = copy_loop hf this other s1 (nxt (nodes s) c)"
    using om cur ct nd ins c1 by (subst copy_loop.simps) (simp add: nxt_def)
  have fno: "fresh s \<notin> lhm_nodes s other ons" using lhm_nodes_bound[OF inv_o] by auto
  have dis1: "lhm_nodes s1 other ons \<inter> lhm_nodes s1 this (tns @ [fresh s]) = {}"
    unfolding fo(2) ln1 using dis fno by auto
  have same: "\<forall>a\<in>set rs. nodes s1 a = nodes s a" using fo(4) sub by auto
  have "fwd (nxt (nodes s1)) (nxt (nodes s) c) rs (tail om)
      = fwd (nxt (nodes s)) (nxt (nodes s) c) rs (tail om)"
    using same by (intro fwd_cong) (simp add: nxt_def)
  with fw have fw1: "fwd (nxt (nodes s1)) (nxt (nodes s) c) rs (tail om)" by simp
  have sub1: "set rs \<subseteq> lhm_nodes s1 other ons" using sub fo(2) by simp
  have "map (ent (nodes s1)) rs = map (ent (nodes s)) rs"
    using same by (intro map_cong refl) (simp add: ent_def)
  with res(3) have en1: "map (ent (nodes s1)) rs = map Some res'" by simp
  have kd1: "fst ` set res' \<inter> fst ` set (tes @ [r]) = {}" using kd rk by auto
  from Cons.IH[OF om1 fo(1) inv_t1 dis1 fw1 t sub1 en1 dk kd1] obtain s' tns' where
    r: "copy_loop hf this other s1 (nxt (nodes s) c) = Some (Inr s')"
    and inv': "lhm_inv hf s' this tns' ((tes @ [r]) @ res')"
    and fr': "frame s1 s' this (lhm_nodes s1 this (tns @ [fresh s]))"
    and ln': "lhm_nodes s' this tns' \<subseteq> lhm_nodes s1 this (tns @ [fresh s]) \<union> {a. fresh s1 \<le> a}"
    by blast
  have fr: "frame s s' this (lhm_nodes s this tns)"
    by (rule frame_trans[OF fr1 fr']) (auto simp: ln1)
  have ln: "lhm_nodes s' this tns' \<subseteq> lhm_nodes s this tns \<union> {a. fresh s \<le> a}"
    using ln' unfolding ln1 f1 by auto
  show ?case
    using step r inv' fr ln res(1) by (intro exI[of _ s'] exI[of _ tns']) simp
qed

lemma copy_from_empty:
  assumes ne: "this \<noteq> other"
    and inv_o: "lhm_inv hf s other ons oes"
    and inv_t: "lhm_inv hf s this tns []"
    and dis: "lhm_nodes s other ons \<inter> lhm_nodes s this tns = {}"
    and om: "maps s other = Some om"
  shows "\<exists>ohd. nodes s (head om) = Some ohd \<and>
     (\<exists>s' tns'. copy_loop hf this other s (next ohd) = Some (Inr s')
      \<and> lhm_inv hf s' this tns' oes
      \<and> frame s s' this (lhm_nodes s this tns)
      \<and> lhm_nodes s' this tns' \<subseteq> lhm_nodes s this tns \<union> {a. fresh s \<le> a})"
proof -
  from inv_o om have wf: "wf_lists hf om (nxt (nodes s)) (prv (nodes s)) (hnx (nodes s))
      (ent (nodes s)) ons oes" by (simp add: lhm_inv_def)
  then have d: "distinct (path om ons)" and l: "links (nxt (nodes s)) (prv (nodes s)) (path om ons)"
    and e: "map (ent (nodes s)) ons = map Some oes" and dk: "distinct (map fst oes)"
    by (simp_all add: wf_lists_def)
  from l have fw: "fwd (nxt (nodes s)) (nxt (nodes s) (head om)) ons (tail om)"
    unfolding path_def by (rule links_fwd)
  have "nxt (nodes s) (head om) \<noteq> None" using fw by (cases ons) auto
  then obtain ohd where ohd: "nodes s (head om) = Some ohd" "next ohd = nxt (nodes s) (head om)"
    by (auto simp: nxt_def split: option.splits)
  from d have t: "tail om \<notin> set ons" by (simp add: path_def)
  have sub: "set ons \<subseteq> lhm_nodes s other ons" using om by (auto simp: lhm_nodes_def path_def)
  have kd: "fst ` set oes \<inter> fst ` set [] = {}" by simp
  from copy_loop_correct[OF ne om inv_o inv_t dis fw t sub e dk kd] ohd show ?thesis
    by simp
qed

lemma links_next_in:
  "links nx pv (a # xs) \<Longrightarrow> n \<in> set (butlast (a # xs)) \<Longrightarrow> \<exists>q. nx n = Some q \<and> q \<in> set xs"
proof (induction xs arbitrary: a)
  case Nil
  then show ?case by simp
next
  case (Cons x r)
  show ?case
  proof (cases "n = a")
    case True
    with Cons.prems(1) show ?thesis by simp
  next
    case False
    with Cons.prems(2) have "n \<in> set (butlast (x # r))" by simp
    moreover from Cons.prems(1) have "links nx pv (x # r)" by simp
    ultimately obtain q where "nx n = Some q" "q \<in> set r" using Cons.IH by blast
    then show ?thesis by auto
  qed
qed

lemma links_prev_in:
  "links nx pv (a # xs) \<Longrightarrow> n \<in> set xs \<Longrightarrow> \<exists>p. pv n = Some p \<and> p \<in> set (a # butlast xs)"
proof (induction xs arbitrary: a)
  case Nil
  then show ?case by simp
next
  case (Cons x r)
  show ?case
  proof (cases "n = x")
    case True
    with Cons.prems(1) show ?thesis by simp
  next
    case False
    with Cons.prems(2) have nr: "n \<in> set r" by simp
    moreover from Cons.prems(1) have "links nx pv (x # r)" by simp
    ultimately obtain p where p: "pv n = Some p" "p \<in> set (x # butlast r)" using Cons.IH by blast
    from nr have "r \<noteq> []" by auto
    then have "butlast (x # r) = x # butlast r" by simp
    with p show ?thesis by auto
  qed
qed

lemma links_first:
  assumes "links nx pv (a # xs)" "distinct (a # xs)" "n \<in> set xs"
  shows "pv n = Some a \<longleftrightarrow> n = hd xs"
proof (cases xs)
  case Nil
  with assms(3) show ?thesis by simp
next
  case (Cons x r)
  show ?thesis
  proof (cases "n = x")
    case True
    with assms(1) Cons show ?thesis by simp
  next
    case False
    with assms(3) Cons have "n \<in> set r" by simp
    moreover from assms(1) Cons have "links nx pv (x # r)" by simp
    ultimately obtain p where p: "pv n = Some p" "p \<in> set (x # butlast r)"
      using links_prev_in by blast
    then have "p \<in> set xs" using Cons by (auto dest: in_set_butlastD)
    with assms(2) have "p \<noteq> a" by auto
    with p False Cons show ?thesis by simp
  qed
qed

text \<open>
  C5. On a well-formed container, \<open>erase\<close> throws \<open>invalid_iterator\<close> exactly when the
  position's container pointer is not this container or its node is the tail (end) or
  the head sentinel, and then the state it stops in is the state it was called in. The
  positions the public operations produce are the null position and the positions at the
  interior nodes and at the tail; on these the forward advance (prefix and postfix) throws
  exactly at the tail and at the null position, and the backward advance throws exactly
  at the first position (the one immediately after head) and at the null position, and
  every advance that does not throw returns another such position. The head sentinel is
  none of them. The advance operators only read the state.
\<close>

theorem C5_position_checks:
  assumes "lhm_inv hf s this ns es" and "maps s this = Some m"
  shows "(\<forall>pos. (\<exists>s'. erase hf this pos s = Some (Inl invalid_iterator, s')) \<longleftrightarrow>
            (map_ptr pos \<noteq> Some this \<or> node pos = Some (tail m) \<or> node pos = Some (head m)))
       \<and> (\<forall>pos s'. erase hf this pos s = Some (Inl invalid_iterator, s') \<longrightarrow> s' = s)
       \<and> begin_lhm this s = Inr \<lparr>node = Some (hd (ns @ [tail m])), map_ptr = Some this\<rparr>
       \<and> end_lhm this s = Inr \<lparr>node = Some (tail m), map_ptr = Some this\<rparr>
       \<and> (\<forall>n\<in>set (ns @ [tail m]).
             n \<noteq> head m
           \<and> (iter_inc s \<lparr>node = Some n, map_ptr = Some this\<rparr> = Inl invalid_iterator
                \<longleftrightarrow> n = tail m)
           \<and> (iter_post_inc s \<lparr>node = Some n, map_ptr = Some this\<rparr> = Inl invalid_iterator
                \<longleftrightarrow> n = tail m)
           \<and> (iter_dec s \<lparr>node = Some n, map_ptr = Some this\<rparr> = Inl invalid_iterator
                \<longleftrightarrow> n = hd (ns @ [tail m]))
           \<and> (iter_post_dec s \<lparr>node = Some n, map_ptr = Some this\<rparr> = Inl invalid_iterator
                \<longleftrightarrow> n = hd (ns @ [tail m]))
           \<and> (n \<noteq> tail m \<longrightarrow> (\<exists>n'\<in>set (ns @ [tail m]).
                  iter_inc s \<lparr>node = Some n, map_ptr = Some this\<rparr>
                    = Inr \<lparr>node = Some n', map_ptr = Some this\<rparr>))
           \<and> (n \<noteq> hd (ns @ [tail m]) \<longrightarrow> (\<exists>n'\<in>set ns.
                  iter_dec s \<lparr>node = Some n, map_ptr = Some this\<rparr>
                    = Inr \<lparr>node = Some n', map_ptr = Some this\<rparr>)))
       \<and> (\<forall>p. iter_inc s \<lparr>node = None, map_ptr = p\<rparr> = Inl invalid_iterator
              \<and> iter_post_inc s \<lparr>node = None, map_ptr = p\<rparr> = Inl invalid_iterator
              \<and> iter_dec s \<lparr>node = None, map_ptr = p\<rparr> = Inl invalid_iterator
              \<and> iter_post_dec s \<lparr>node = None, map_ptr = p\<rparr> = Inl invalid_iterator)"
proof -
  let ?h = "nodes s"
  let ?xs = "ns @ [tail m]"
  from assms have d: "distinct (head m # ?xs)" and l: "links (nxt ?h) (prv ?h) (head m # ?xs)"
    by (simp_all add: lhm_inv_def wf_lists_def path_def)
  have e1: "\<forall>pos. (\<exists>s'. erase hf this pos s = Some (Inl invalid_iterator, s')) \<longleftrightarrow>
            (map_ptr pos \<noteq> Some this \<or> node pos = Some (tail m) \<or> node pos = Some (head m))"
    using erase_throws_iff[of hf this _ s] assms(2) by simp
  have e2: "\<forall>pos s'. erase hf this pos s = Some (Inl invalid_iterator, s') \<longrightarrow> s' = s"
    using erase_throw_unchanged by blast
  have hx: "nxt ?h (head m) = Some (hd ?xs)" using l by (cases ns) simp_all
  then obtain hdn where hdn: "?h (head m) = Some hdn" "next hdn = Some (hd ?xs)"
    by (auto dest: nxt_SomeD)
  have b: "begin_lhm this s = Inr \<lparr>node = Some (hd ?xs), map_ptr = Some this\<rparr>"
    using assms(2) hdn by (simp add: begin_lhm_def)
  have en: "end_lhm this s = Inr \<lparr>node = Some (tail m), map_ptr = Some this\<rparr>"
    using assms(2) by (simp add: end_lhm_def)
  have pi: "iter_post_inc s it = Inl invalid_iterator \<longleftrightarrow> iter_inc s it = Inl invalid_iterator" for it
    by (simp add: iter_post_inc_def split: sum.split)
  have pd: "iter_post_dec s it = Inl invalid_iterator \<longleftrightarrow> iter_dec s it = Inl invalid_iterator" for it
    by (simp add: iter_post_dec_def split: sum.split)
  have per: "n \<noteq> head m
           \<and> (iter_inc s \<lparr>node = Some n, map_ptr = Some this\<rparr> = Inl invalid_iterator
                \<longleftrightarrow> n = tail m)
           \<and> (iter_post_inc s \<lparr>node = Some n, map_ptr = Some this\<rparr> = Inl invalid_iterator
                \<longleftrightarrow> n = tail m)
           \<and> (iter_dec s \<lparr>node = Some n, map_ptr = Some this\<rparr> = Inl invalid_iterator
                \<longleftrightarrow> n = hd ?xs)
           \<and> (iter_post_dec s \<lparr>node = Some n, map_ptr = Some this\<rparr> = Inl invalid_iterator
                \<longleftrightarrow> n = hd ?xs)
           \<and> (n \<noteq> tail m \<longrightarrow> (\<exists>n'\<in>set ?xs.
                  iter_inc s \<lparr>node = Some n, map_ptr = Some this\<rparr>
                    = Inr \<lparr>node = Some n', map_ptr = Some this\<rparr>))
           \<and> (n \<noteq> hd ?xs \<longrightarrow> (\<exists>n'\<in>set ns.
                  iter_dec s \<lparr>node = Some n, map_ptr = Some this\<rparr>
                    = Inr \<lparr>node = Some n', map_ptr = Some this\<rparr>))"
    if n: "n \<in> set ?xs" for n
  proof -
    from n d have nh: "n \<noteq> head m" by auto
    from links_prev_in[OF l n] obtain p where p: "prv ?h n = Some p" "p \<in> set (head m # butlast ?xs)"
      by blast
    then obtain nd where nd: "?h n = Some nd" "prev nd = Some p" by (auto dest: prv_SomeD)
    have pf: "p = head m \<longleftrightarrow> n = hd ?xs" using links_first[OF l d n] p(1) by simp
    have inc_t: "iter_inc s \<lparr>node = Some n, map_ptr = Some this\<rparr> = Inl invalid_iterator
                \<longleftrightarrow> n = tail m"
      using assms(2) nd by (simp add: iter_inc_def)
    have dec_t: "iter_dec s \<lparr>node = Some n, map_ptr = Some this\<rparr> = Inl invalid_iterator
                \<longleftrightarrow> n = hd ?xs"
      using assms(2) nd pf by (simp add: iter_dec_def)
    have inc_ok: "\<exists>n'\<in>set ?xs. iter_inc s \<lparr>node = Some n, map_ptr = Some this\<rparr>
                    = Inr \<lparr>node = Some n', map_ptr = Some this\<rparr>" if "n \<noteq> tail m"
    proof -
      from n that have "n \<in> set (butlast (head m # ?xs))" by simp
      from links_next_in[OF l this] obtain q where q: "nxt ?h n = Some q" "q \<in> set ?xs" by blast
      then have "next nd = Some q" using nd by (simp add: nxt_def)
      then have "iter_inc s \<lparr>node = Some n, map_ptr = Some this\<rparr>
                    = Inr \<lparr>node = Some q, map_ptr = Some this\<rparr>"
        using assms(2) nd that by (simp add: iter_inc_def)
      with q(2) show ?thesis by blast
    qed
    have dec_ok: "\<exists>n'\<in>set ns. iter_dec s \<lparr>node = Some n, map_ptr = Some this\<rparr>
                    = Inr \<lparr>node = Some n', map_ptr = Some this\<rparr>" if "n \<noteq> hd ?xs"
    proof -
      from that pf have "p \<noteq> head m" by simp
      with p(2) have "p \<in> set ns" by simp
      moreover have "iter_dec s \<lparr>node = Some n, map_ptr = Some this\<rparr>
                    = Inr \<lparr>node = Some p, map_ptr = Some this\<rparr>"
        using assms(2) nd \<open>p \<noteq> head m\<close> by (simp add: iter_dec_def)
      ultimately show ?thesis by blast
    qed
    show ?thesis
      using nh inc_t dec_t inc_ok dec_ok pi pd by simp
  qed
  have nl: "\<forall>p. iter_inc s \<lparr>node = None, map_ptr = p\<rparr> = Inl invalid_iterator
              \<and> iter_post_inc s \<lparr>node = None, map_ptr = p\<rparr> = Inl invalid_iterator
              \<and> iter_dec s \<lparr>node = None, map_ptr = p\<rparr> = Inl invalid_iterator
              \<and> iter_post_dec s \<lparr>node = None, map_ptr = p\<rparr> = Inl invalid_iterator"
    by (simp add: iter_inc_def iter_dec_def iter_post_inc_def iter_post_dec_def)
  from per have per': "\<forall>n\<in>set ?xs. n \<noteq> head m
           \<and> (iter_inc s \<lparr>node = Some n, map_ptr = Some this\<rparr> = Inl invalid_iterator
                \<longleftrightarrow> n = tail m)
           \<and> (iter_post_inc s \<lparr>node = Some n, map_ptr = Some this\<rparr> = Inl invalid_iterator
                \<longleftrightarrow> n = tail m)
           \<and> (iter_dec s \<lparr>node = Some n, map_ptr = Some this\<rparr> = Inl invalid_iterator
                \<longleftrightarrow> n = hd ?xs)
           \<and> (iter_post_dec s \<lparr>node = Some n, map_ptr = Some this\<rparr> = Inl invalid_iterator
                \<longleftrightarrow> n = hd ?xs)
           \<and> (n \<noteq> tail m \<longrightarrow> (\<exists>n'\<in>set ?xs.
                  iter_inc s \<lparr>node = Some n, map_ptr = Some this\<rparr>
                    = Inr \<lparr>node = Some n', map_ptr = Some this\<rparr>))
           \<and> (n \<noteq> hd ?xs \<longrightarrow> (\<exists>n'\<in>set ns.
                  iter_dec s \<lparr>node = Some n, map_ptr = Some this\<rparr>
                    = Inr \<lparr>node = Some n', map_ptr = Some this\<rparr>))"
    by (rule ballI)
  show ?thesis
    using e1 e2 b en per' nl by (intro conjI)
qed

theorem C5_position_checks_witness:
  "(\<exists>s'. erase id 100 \<lparr>node = Some 1, map_ptr = Some 100\<rparr> one_map
           = Some (Inl invalid_iterator, s') \<and> s' = one_map)
   \<and> (\<exists>s'. erase id 100 \<lparr>node = Some 2, map_ptr = Some 200\<rparr> one_map
           = Some (Inl invalid_iterator, s') \<and> s' = one_map)
   \<and> iter_inc one_map \<lparr>node = Some 1, map_ptr = Some 100\<rparr> = Inl invalid_iterator
   \<and> iter_inc one_map \<lparr>node = Some 2, map_ptr = Some 100\<rparr> \<noteq> Inl invalid_iterator
   \<and> iter_dec one_map \<lparr>node = Some 2, map_ptr = Some 100\<rparr> = Inl invalid_iterator
   \<and> iter_dec one_map \<lparr>node = Some 1, map_ptr = Some 100\<rparr> \<noteq> Inl invalid_iterator"
proof -
  obtain m where m: "maps one_map 100 = Some m" "head m = 0" "tail m = 1"
    using one_map_maps by auto
  note t = C5_position_checks[OF one_map_inv m(1)]
  have a: "\<exists>s'. erase id 100 \<lparr>node = Some 1, map_ptr = Some 100\<rparr> one_map
           = Some (Inl invalid_iterator, s')"
    using t[THEN conjunct1, rule_format, of "\<lparr>node = Some 1, map_ptr = Some 100\<rparr>"] m by simp
  have b: "\<exists>s'. erase id 100 \<lparr>node = Some 2, map_ptr = Some 200\<rparr> one_map
           = Some (Inl invalid_iterator, s')"
    using t[THEN conjunct1, rule_format, of "\<lparr>node = Some 2, map_ptr = Some 200\<rparr>"] by simp
  note u = t[THEN conjunct2, THEN conjunct1, rule_format]
  note p = t[THEN conjunct2, THEN conjunct2, THEN conjunct2, THEN conjunct2, THEN conjunct1]
  have p1: "iter_inc one_map \<lparr>node = Some 1, map_ptr = Some 100\<rparr> = Inl invalid_iterator"
    "iter_dec one_map \<lparr>node = Some 1, map_ptr = Some 100\<rparr> \<noteq> Inl invalid_iterator"
    using p[rule_format, of 1] m by simp_all
  have p2: "iter_inc one_map \<lparr>node = Some 2, map_ptr = Some 100\<rparr> \<noteq> Inl invalid_iterator"
    "iter_dec one_map \<lparr>node = Some 2, map_ptr = Some 100\<rparr> = Inl invalid_iterator"
    using p[rule_format, of 2] m by simp_all
  show ?thesis using a b u p1 p2 by blast
qed

lemma copy_construct_correct:
  assumes inv_o: "lhm_inv hf s other ons oes" and ne: "this \<noteq> other"
  shows "\<exists>s' tns'. copy_construct hf this other s = Some (Inr s')
      \<and> lhm_inv hf s' this tns' oes
      \<and> frame s s' this {}
      \<and> lhm_nodes s' this tns' \<subseteq> {a. fresh s \<le> a}"
proof -
  from inv_o obtain om where om: "maps s other = Some om"
    and wfo: "wf_lists hf om (nxt (nodes s)) (prv (nodes s)) (hnx (nodes s)) (ent (nodes s)) ons oes"
    by (rule lhm_invD)
  from wfo have bc: "0 < bucket_count om" by (simp add: wf_lists_def)
  define n0 where "n0 = fresh s"
  define m0 where "m0 = \<lparr>head = n0, tail = Suc n0, buckets = replicate (bucket_count om) None,
      bucket_count = bucket_count om, element_count = 0\<rparr>"
  define h3 where "h3 = (nodes s)(n0 \<mapsto> \<lparr>data = None, prev = None, next = None, hash_next = None\<rparr>,
      Suc n0 \<mapsto> \<lparr>data = None, prev = None, next = None, hash_next = None\<rparr>,
      n0 \<mapsto> \<lparr>data = None, prev = None, next = Some (Suc n0), hash_next = None\<rparr>,
      Suc n0 \<mapsto> \<lparr>data = None, prev = Some n0, next = None, hash_next = None\<rparr>)"
  define s3 where "s3 = s\<lparr>fresh := Suc (Suc n0), nodes := h3, maps := (maps s)(this \<mapsto> m0)\<rparr>"
  have hb: "head om < fresh s"
    using lhm_nodes_bound[OF inv_o] om by (simp add: lhm_nodes_def path_def)
  from wfo have "links (nxt (nodes s)) (prv (nodes s)) (head om # ons @ [tail om])"
    by (simp add: wf_lists_def path_def)
  then have "nxt (nodes s) (head om) \<noteq> None" by (cases ons) simp_all
  then obtain ohd0 where ohd0: "nodes s (head om) = Some ohd0"
    by (auto simp: nxt_def split: option.splits)
  have run: "copy_construct hf this other s = copy_loop hf this other s3 (next ohd0)"
    using om ohd0 hb
    by (simp add: copy_construct_def new_Node_def init_buckets_def s3_def h3_def m0_def n0_def)
  have v: "nxt h3 n0 = Some (Suc n0)" "prv h3 (Suc n0) = Some n0" "ent h3 n0 = None"
    "ent h3 (Suc n0) = None"
    by (simp_all add: h3_def nxt_def prv_def ent_def)
  have "n0 \<noteq> Suc n0" by simp
  from empty_wf[where nx="nxt h3" and pv="prv h3" and en="ent h3", OF this v bc]
  have wf: "wf_lists hf m0 (nxt (nodes s3)) (prv (nodes s3)) (hnx (nodes s3)) (ent (nodes s3)) [] []"
    by (simp add: m0_def s3_def)
  have ms: "maps s3 this = Some m0" by (simp add: s3_def)
  have inv_t: "lhm_inv hf s3 this [] []"
    by (rule lhm_invI[OF ms wf]) (simp add: path_def m0_def s3_def)
  have fr0: "frame s s3 this {}"
    by (simp add: frame_def s3_def h3_def n0_def)
  have e0: "lhm_nodes s other ons \<inter> {} = {}" by simp
  note fo = inv_frame[OF inv_o fr0 ne[symmetric] e0]
  have lt: "lhm_nodes s3 this [] = {n0, Suc n0}"
    by (simp add: lhm_nodes_def ms path_def m0_def)
  have dis: "lhm_nodes s3 other ons \<inter> lhm_nodes s3 this [] = {}"
    using lhm_nodes_bound[OF inv_o] fo(2) unfolding lt n0_def by auto
  have om3: "maps s3 other = Some om" using fo(3) om by simp
  from copy_from_empty[OF ne fo(1) inv_t dis om3] obtain ohd s' tns' where
    ohd: "nodes s3 (head om) = Some ohd"
    and r: "copy_loop hf this other s3 (next ohd) = Some (Inr s')"
    and inv': "lhm_inv hf s' this tns' oes"
    and fr': "frame s3 s' this (lhm_nodes s3 this [])"
    and ln': "lhm_nodes s' this tns' \<subseteq> lhm_nodes s3 this [] \<union> {a. fresh s3 \<le> a}"
    by blast
  have fr: "frame s s' this {}"
    by (rule frame_trans[OF fr0 fr']) (auto simp: lt n0_def)
  have ln: "lhm_nodes s' this tns' \<subseteq> {a. fresh s \<le> a}"
    using ln' unfolding lt by (auto simp: n0_def s3_def)
  have "nodes s3 (head om) = Some ohd0"
    using ohd0 hb by (simp add: s3_def h3_def n0_def)
  with ohd have "ohd = ohd0" by simp
  with run r have "copy_construct hf this other s = Some (Inr s')" by simp
  then show ?thesis using inv' fr ln by blast
qed

lemma assign_correct:
  assumes inv_o: "lhm_inv hf s other ons oes" and ne: "this \<noteq> other"
    and inv_t: "lhm_inv hf s this tns tes"
    and dis: "lhm_nodes s other ons \<inter> lhm_nodes s this tns = {}"
  shows "\<exists>s' tns'. assign hf this other s = Some (Inr s')
      \<and> lhm_inv hf s' this tns' oes
      \<and> frame s s' this (lhm_nodes s this tns)
      \<and> lhm_nodes s' this tns' \<subseteq> lhm_nodes s this tns \<union> {a. fresh s \<le> a}"
proof -
  from inv_o obtain om where om: "maps s other = Some om" by (rule lhm_invD)
  from clear_inv[OF inv_t] obtain s1 where
    cl: "clear this s = Some (Inr s1)" and inv1: "lhm_inv hf s1 this [] []"
    and fr1: "frame s s1 this (lhm_nodes s this tns)" and f1: "fresh s1 = fresh s"
    and ln1: "lhm_nodes s1 this [] \<subseteq> lhm_nodes s this tns"
    by blast
  note fo = inv_frame[OF inv_o fr1 ne[symmetric] dis]
  have om1: "maps s1 other = Some om" using fo(3) om by simp
  have dis1: "lhm_nodes s1 other ons \<inter> lhm_nodes s1 this [] = {}"
    using dis ln1 fo(2) by auto
  from copy_from_empty[OF ne fo(1) inv1 dis1 om1] obtain ohd s' tns' where
    ohd: "nodes s1 (head om) = Some ohd"
    and r: "copy_loop hf this other s1 (next ohd) = Some (Inr s')"
    and inv': "lhm_inv hf s' this tns' oes"
    and fr': "frame s1 s' this (lhm_nodes s1 this [])"
    and ln': "lhm_nodes s' this tns' \<subseteq> lhm_nodes s1 this [] \<union> {a. fresh s1 \<le> a}"
    by blast
  have fr: "frame s s' this (lhm_nodes s this tns)"
    by (rule frame_trans[OF fr1 fr']) (use ln1 in auto)
  have ln: "lhm_nodes s' this tns' \<subseteq> lhm_nodes s this tns \<union> {a. fresh s \<le> a}"
    using ln' ln1 f1 by auto
  have "assign hf this other s = Some (Inr s')"
    using ne cl om1 ohd r by (simp add: assign_def)
  then show ?thesis using inv' fr ln by blast
qed

text \<open>Self-assignment returns at once (line 280) and leaves the state as it was.\<close>

lemma assign_self: "assign hf this this s = Some (Inr s)"
  by (simp add: assign_def)

lemma run_op_frame:
  assumes inv: "lhm_inv hf s this ns es"
  shows "\<exists>s' ns'. run_op hf this x s = Some (Inr s') \<and> lhm_inv hf s' this ns' (spec_op x es)
           \<and> frame s s' this (lhm_nodes s this ns)
           \<and> lhm_nodes s' this ns' \<subseteq> lhm_nodes s this ns \<union> {a. fresh s \<le> a}"
proof (cases x)
  case (Insert k v)
  show ?thesis
  proof (cases "k \<in> fst ` set es")
    case True
    then obtain w where "map_of es k = Some w"
      by (cases "map_of es k") (auto simp: map_of_eq_None_iff)
    from present_index[OF inv this] obtain i where i: "i < length ns" "es ! i = (k, w)" by blast
    from insert_present[OF inv i(1), of v] i(2)
    have "run_op hf this x s = Some (Inr s)" using Insert by simp
    moreover have "spec_op x es = es" using Insert True by simp
    ultimately show ?thesis using inv frame_refl[of s this "lhm_nodes s this ns"]
      by (intro exI[of _ s] exI[of _ ns]) simp
  next
    case False
    from insert_absent[OF inv False, of v] obtain s' where
      "insert_lhm hf this (k, v) s
         = Some (Inr ((\<lparr>node = Some (fresh s), map_ptr = Some this\<rparr>, True), s'))"
      "lhm_inv hf s' this (ns @ [fresh s]) (es @ [(k, v)])"
      "frame s s' this (lhm_nodes s this ns)"
      "lhm_nodes s' this (ns @ [fresh s]) = insert (fresh s) (lhm_nodes s this ns)"
      by (elim exE conjE)
    moreover have "spec_op x es = es @ [(k, v)]" using Insert False by simp
    ultimately show ?thesis using Insert
      by (intro exI[of _ s'] exI[of _ "ns @ [fresh s]"]) simp
  qed
next
  case (Erase k)
  show ?thesis
  proof (cases "k \<in> fst ` set es")
    case True
    then obtain w where "map_of es k = Some w"
      by (cases "map_of es k") (auto simp: map_of_eq_None_iff)
    from present_index[OF inv this] obtain i where i: "i < length ns" "es ! i = (k, w)" by blast
    from find_lhm_inv(3)[OF inv i(1)] i(2)
    have f: "find_lhm hf this k s = Some (Inr \<lparr>node = Some (ns ! i), map_ptr = Some this\<rparr>)"
      by simp
    from erase_found[OF inv i(1)] i(2) obtain s' where
      "erase hf this \<lparr>node = Some (ns ! i), map_ptr = Some this\<rparr> s = Some (Inr (), s')"
      "lhm_inv hf s' this (take i ns @ drop (Suc i) ns) (filter (\<lambda>kv. fst kv \<noteq> k) es)"
      "frame s s' this (lhm_nodes s this ns)"
      "lhm_nodes s' this (take i ns @ drop (Suc i) ns) = lhm_nodes s this ns - {ns ! i}"
      by auto
    then show ?thesis using f Erase
      by (intro exI[of _ s'] exI[of _ "take i ns @ drop (Suc i) ns"]) auto
  next
    case False
    from inv obtain m where m: "maps s this = Some m" by (rule lhm_invD)
    from find_lhm_inv(1)[OF inv False] m
    have f: "find_lhm hf this k s = Some (Inr \<lparr>node = Some (tail m), map_ptr = Some this\<rparr>)"
      by (simp add: end_lhm_def)
    have "\<forall>kv\<in>set es. fst kv \<noteq> k" using False by (metis imageI)
    then have "spec_op x es = es" using Erase by (simp add: filter_id_conv)
    moreover have "run_op hf this x s = Some (Inr s)"
      using Erase f erase_end_throws[OF m, of hf] by simp
    ultimately show ?thesis using inv frame_refl[of s this "lhm_nodes s this ns"]
      by (intro exI[of _ s] exI[of _ ns]) simp
  qed
qed

lemma run_ops_frame:
  assumes "lhm_inv hf s this ns es"
  shows "\<exists>s' ns'. run_ops hf this ops s = Some (Inr s')
           \<and> lhm_inv hf s' this ns' (spec_ops ops es)
           \<and> frame s s' this (lhm_nodes s this ns)"
  using assms
proof (induction ops arbitrary: s ns es)
  case Nil
  then show ?case using frame_refl[of s this "lhm_nodes s this ns"]
    by (intro exI[of _ s] exI[of _ ns]) simp
next
  case (Cons x ops)
  from run_op_frame[OF Cons.prems, of x] obtain s1 ns1 where
    1: "run_op hf this x s = Some (Inr s1)" "lhm_inv hf s1 this ns1 (spec_op x es)"
      "frame s s1 this (lhm_nodes s this ns)"
      "lhm_nodes s1 this ns1 \<subseteq> lhm_nodes s this ns \<union> {a. fresh s \<le> a}" by blast
  from Cons.IH[OF 1(2)] obtain s' ns' where
    2: "run_ops hf this ops s1 = Some (Inr s')" "lhm_inv hf s' this ns' (spec_ops ops (spec_op x es))"
      "frame s1 s' this (lhm_nodes s1 this ns1)" by blast
  have "frame s s' this (lhm_nodes s this ns)" by (rule frame_trans[OF 1(3) 2(3) 1(4)])
  with 1(1) 2(1,2) show ?case by (intro exI[of _ s'] exI[of _ ns']) simp
qed

text \<open>
  C8. Let \<open>a\<close> be a well-formed container holding the entries \<open>aes\<close> (in insertion order) on
  the nodes \<open>ans\<close>, and let \<open>b\<close> be another address.  Copy construction of \<open>b\<close> from \<open>a\<close>, and
  the assignment \<open>b = a\<close> to a well-formed container \<open>b\<close> that shares no node with \<open>a\<close>, both
  return; afterwards \<open>b\<close> is well formed and holds exactly \<open>aes\<close> in the same order, \<open>a\<close> is
  untouched (its record and every one of its nodes are as before), and the node sets of the two
  containers are disjoint.  Every later sequence of insertions and erasures on \<open>b\<close> returns,
  gives \<open>b\<close> the expected contents, and still leaves the record, the nodes and the traversal of
  \<open>a\<close> as they were; in particular looking up in \<open>a\<close> a key that \<open>a\<close> never held yields
  \<open>a.end()\<close>, also when that key has just been inserted into \<open>b\<close>.
\<close>

theorem C8_copy:
  assumes inv_a: "lhm_inv hf s a ans aes" and ne: "a \<noteq> b"
    and r: "r = copy_construct hf b a s
            \<or> (r = assign hf b a s \<and> lhm_inv hf s b bns0 bes0
                \<and> lhm_nodes s a ans \<inter> lhm_nodes s b bns0 = {})"
  shows "\<exists>s' bns. r = Some (Inr s')
           \<and> lhm_inv hf s' b bns aes \<and> lhm_inv hf s' a ans aes
           \<and> lhm_nodes s' a ans \<inter> lhm_nodes s' b bns = {}
           \<and> maps s' a = maps s a
           \<and> (\<forall>n\<in>lhm_nodes s a ans. nodes s' n = nodes s n)
           \<and> traverse b s' = Some (Inr aes) \<and> traverse a s' = Some (Inr aes)
           \<and> (\<forall>ops. \<exists>s'' bns'. run_ops hf b ops s' = Some (Inr s'')
                  \<and> lhm_inv hf s'' b bns' (spec_ops ops aes)
                  \<and> traverse b s'' = Some (Inr (spec_ops ops aes))
                  \<and> lhm_inv hf s'' a ans aes
                  \<and> maps s'' a = maps s a
                  \<and> (\<forall>n\<in>lhm_nodes s a ans. nodes s'' n = nodes s n)
                  \<and> traverse a s'' = Some (Inr aes)
                  \<and> (\<forall>k. k \<notin> fst ` set aes
                         \<longrightarrow> find_lhm hf a k s'' = Some (end_lhm a s'')))"
proof -
  have "\<exists>s' bns A. r = Some (Inr s') \<and> lhm_inv hf s' b bns aes \<and> frame s s' b A
          \<and> lhm_nodes s a ans \<inter> A = {} \<and> lhm_nodes s' b bns \<subseteq> A \<union> {n. fresh s \<le> n}"
    using r
  proof
    assume c: "r = copy_construct hf b a s"
    from copy_construct_correct[OF inv_a ne[symmetric]] obtain s' bns where
      "copy_construct hf b a s = Some (Inr s')" "lhm_inv hf s' b bns aes" "frame s s' b {}"
      "lhm_nodes s' b bns \<subseteq> {n. fresh s \<le> n}" by blast
    with c show ?thesis by (intro exI[of _ s'] exI[of _ bns] exI[of _ "{}"]) simp
  next
    assume c: "r = assign hf b a s \<and> lhm_inv hf s b bns0 bes0
        \<and> lhm_nodes s a ans \<inter> lhm_nodes s b bns0 = {}"
    then have c1: "r = assign hf b a s" and inv_b: "lhm_inv hf s b bns0 bes0"
      and dis: "lhm_nodes s a ans \<inter> lhm_nodes s b bns0 = {}" by simp_all
    from assign_correct[OF inv_a ne[symmetric] inv_b dis] obtain s' bns where
      "assign hf b a s = Some (Inr s')" "lhm_inv hf s' b bns aes"
      "frame s s' b (lhm_nodes s b bns0)"
      "lhm_nodes s' b bns \<subseteq> lhm_nodes s b bns0 \<union> {n. fresh s \<le> n}" by blast
    with c1 dis show ?thesis
      by (intro exI[of _ s'] exI[of _ bns] exI[of _ "lhm_nodes s b bns0"]) simp
  qed
  then obtain s' bns A where res: "r = Some (Inr s')" and inv_b': "lhm_inv hf s' b bns aes"
    and fr: "frame s s' b A" and dA: "lhm_nodes s a ans \<inter> A = {}"
    and sub: "lhm_nodes s' b bns \<subseteq> A \<union> {n. fresh s \<le> n}" by blast
  note fa = inv_frame[OF inv_a fr ne dA]
  have bd: "\<forall>n\<in>lhm_nodes s a ans. n < fresh s" by (rule lhm_nodes_bound[OF inv_a])
  have dis': "lhm_nodes s' a ans \<inter> lhm_nodes s' b bns = {}"
  proof (rule ccontr)
    assume "lhm_nodes s' a ans \<inter> lhm_nodes s' b bns \<noteq> {}"
    then obtain n where n: "n \<in> lhm_nodes s' a ans" "n \<in> lhm_nodes s' b bns" by blast
    from n(1) fa(2) have na: "n \<in> lhm_nodes s a ans" by simp
    with bd have "n < fresh s" by blast
    moreover from na dA have "n \<notin> A" by blast
    ultimately show False using n(2) sub by auto
  qed
  have later: "\<forall>ops. \<exists>s'' bns'. run_ops hf b ops s' = Some (Inr s'')
                  \<and> lhm_inv hf s'' b bns' (spec_ops ops aes)
                  \<and> traverse b s'' = Some (Inr (spec_ops ops aes))
                  \<and> lhm_inv hf s'' a ans aes
                  \<and> maps s'' a = maps s a
                  \<and> (\<forall>n\<in>lhm_nodes s a ans. nodes s'' n = nodes s n)
                  \<and> traverse a s'' = Some (Inr aes)
                  \<and> (\<forall>k. k \<notin> fst ` set aes
                         \<longrightarrow> find_lhm hf a k s'' = Some (end_lhm a s''))"
  proof
    fix ops
    from run_ops_frame[OF inv_b', of ops] obtain s'' bns' where
      ro: "run_ops hf b ops s' = Some (Inr s'')"
      and ib: "lhm_inv hf s'' b bns' (spec_ops ops aes)"
      and fr2: "frame s' s'' b (lhm_nodes s' b bns)" by blast
    have d2: "lhm_nodes s' a ans \<inter> lhm_nodes s' b bns = {}" by (rule dis')
    note fa2 = inv_frame[OF fa(1) fr2 ne d2]
    have m2: "maps s'' a = maps s a" using fa2(3) fa(3) by simp
    have n2: "\<forall>n\<in>lhm_nodes s a ans. nodes s'' n = nodes s n"
    proof
      fix n assume n: "n \<in> lhm_nodes s a ans"
      then have "n \<in> lhm_nodes s' a ans" using fa(2) by simp
      then have "nodes s'' n = nodes s' n" using fa2(4) by blast
      also have "\<dots> = nodes s n" using fa(4) n by blast
      finally show "nodes s'' n = nodes s n" .
    qed
    have f2: "\<forall>k. k \<notin> fst ` set aes \<longrightarrow> find_lhm hf a k s'' = Some (end_lhm a s'')"
      using find_lhm_inv(1)[OF fa2(1)] by blast
    show "\<exists>s'' bns'. run_ops hf b ops s' = Some (Inr s'')
                  \<and> lhm_inv hf s'' b bns' (spec_ops ops aes)
                  \<and> traverse b s'' = Some (Inr (spec_ops ops aes))
                  \<and> lhm_inv hf s'' a ans aes
                  \<and> maps s'' a = maps s a
                  \<and> (\<forall>n\<in>lhm_nodes s a ans. nodes s'' n = nodes s n)
                  \<and> traverse a s'' = Some (Inr aes)
                  \<and> (\<forall>k. k \<notin> fst ` set aes
                         \<longrightarrow> find_lhm hf a k s'' = Some (end_lhm a s''))"
      using ro ib traverse_inv[OF ib] fa2(1) m2 n2 traverse_inv[OF fa2(1)] f2
      by (intro exI[of _ s''] exI[of _ bns'] conjI)
  qed
  show ?thesis
    using res inv_b' fa(1) dis' fa(3) fa(4) traverse_inv[OF inv_b'] traverse_inv[OF fa(1)] later
    by (intro exI[of _ s'] exI[of _ bns] conjI)
qed

lemma two_maps_inv:
  "lhm_inv id two_maps 100 [2] [(1, 10)]" "lhm_inv id two_maps 200 [] []"
  "lhm_nodes two_maps 100 [2] \<inter> lhm_nodes two_maps 200 [] = {}"
proof -
  note c = construct_inv[of id 200 one_map]
  have fr: "frame one_map two_maps 200 {}"
    using c by (simp add: frame_def two_maps_def)
  have ne: "(100::nat) \<noteq> 200" by simp
  have d: "lhm_nodes one_map 100 [2] \<inter> {} = {}" by simp
  note fa = inv_frame[OF one_map_inv fr ne d]
  show "lhm_inv id two_maps 100 [2] [(1, 10)]" by (rule fa(1))
  show "lhm_inv id two_maps 200 [] []" using c by (simp add: two_maps_def)
  have "lhm_nodes two_maps 200 [] = {3, 4}"
    using c by (simp add: two_maps_def one_map_nodes(4))
  moreover have "\<forall>a\<in>lhm_nodes two_maps 100 [2]. a < 3"
    using lhm_nodes_bound[OF one_map_inv] fa(2) by (simp add: one_map_nodes(4))
  ultimately show "lhm_nodes two_maps 100 [2] \<inter> lhm_nodes two_maps 200 [] = {}" by auto
qed

theorem C8_copy_witness:
  "(\<exists>s' s''. copy_construct id 200 100 one_map = Some (Inr s')
       \<and> traverse 200 s' = Some (Inr [(1, 10)])
       \<and> run_ops id 200 [Insert 5 50] s' = Some (Inr s'')
       \<and> traverse 200 s'' = Some (Inr [(1, 10), (5, 50)])
       \<and> traverse 100 s'' = Some (Inr [(1, 10)])
       \<and> find_lhm id 100 5 s'' = Some (end_lhm 100 s''))
   \<and> (\<exists>s' s''. assign id 200 100 two_maps = Some (Inr s')
       \<and> traverse 200 s' = Some (Inr [(1, 10)])
       \<and> run_ops id 200 [Insert 5 50] s' = Some (Inr s'')
       \<and> traverse 200 s'' = Some (Inr [(1, 10), (5, 50)])
       \<and> traverse 100 s'' = Some (Inr [(1, 10)])
       \<and> find_lhm id 100 5 s'' = Some (end_lhm 100 s''))"
proof
  have ne: "(100::nat) \<noteq> 200" by simp
  have k: "(5::nat) \<notin> fst ` set [(1, 10::nat)]" by simp
  have sp: "spec_ops [Insert 5 50] [(1, 10::nat)] = [(1::nat, 10), (5, 50)]" by simp
  have "\<exists>s' bns. copy_construct id 200 100 one_map = Some (Inr s')
           \<and> lhm_inv id s' 200 bns [(1, 10)] \<and> lhm_inv id s' 100 [2] [(1, 10)]
           \<and> lhm_nodes s' 100 [2] \<inter> lhm_nodes s' 200 bns = {}
           \<and> maps s' 100 = maps one_map 100
           \<and> (\<forall>n\<in>lhm_nodes one_map 100 [2]. nodes s' n = nodes one_map n)
           \<and> traverse 200 s' = Some (Inr [(1, 10)]) \<and> traverse 100 s' = Some (Inr [(1, 10)])
           \<and> (\<forall>ops. \<exists>s'' bns'. run_ops id 200 ops s' = Some (Inr s'')
                  \<and> lhm_inv id s'' 200 bns' (spec_ops ops [(1, 10)])
                  \<and> traverse 200 s'' = Some (Inr (spec_ops ops [(1, 10)]))
                  \<and> lhm_inv id s'' 100 [2] [(1, 10)]
                  \<and> maps s'' 100 = maps one_map 100
                  \<and> (\<forall>n\<in>lhm_nodes one_map 100 [2]. nodes s'' n = nodes one_map n)
                  \<and> traverse 100 s'' = Some (Inr [(1, 10)])
                  \<and> (\<forall>k. k \<notin> fst ` set [(1, 10::nat)]
                         \<longrightarrow> find_lhm id 100 k s'' = Some (end_lhm 100 s'')))"
    by (rule C8_copy[OF one_map_inv ne]) simp
  then obtain s' where 1: "copy_construct id 200 100 one_map = Some (Inr s')"
    "traverse 200 s' = Some (Inr [(1, 10)])"
    and l: "\<forall>ops. \<exists>s''. run_ops id 200 ops s' = Some (Inr s'')
                  \<and> traverse 200 s'' = Some (Inr (spec_ops ops [(1, 10)]))
                  \<and> traverse 100 s'' = Some (Inr [(1, 10)])
                  \<and> (\<forall>k. k \<notin> fst ` set [(1, 10::nat)]
                         \<longrightarrow> find_lhm id 100 k s'' = Some (end_lhm 100 s''))"
    by blast
  from l obtain s'' where 2: "run_ops id 200 [Insert 5 50] s' = Some (Inr s'')"
    "traverse 200 s'' = Some (Inr (spec_ops [Insert 5 50] [(1, 10)]))"
    "traverse 100 s'' = Some (Inr [(1, 10)])"
    "\<forall>k. k \<notin> fst ` set [(1, 10::nat)] \<longrightarrow> find_lhm id 100 k s'' = Some (end_lhm 100 s'')"
    by blast
  from 2(4) k have "find_lhm id 100 5 s'' = Some (end_lhm 100 s'')" by blast
  with 1 2(1,3) 2(2)[unfolded sp]
  show "\<exists>s' s''. copy_construct id 200 100 one_map = Some (Inr s')
       \<and> traverse 200 s' = Some (Inr [(1, 10)])
       \<and> run_ops id 200 [Insert 5 50] s' = Some (Inr s'')
       \<and> traverse 200 s'' = Some (Inr [(1, 10), (5, 50)])
       \<and> traverse 100 s'' = Some (Inr [(1, 10)])
       \<and> find_lhm id 100 5 s'' = Some (end_lhm 100 s'')"
    by (intro exI[of _ s'] exI[of _ s''] conjI)
next
  have ne: "(100::nat) \<noteq> 200" by simp
  have k: "(5::nat) \<notin> fst ` set [(1, 10::nat)]" by simp
  have sp: "spec_ops [Insert 5 50] [(1, 10::nat)] = [(1::nat, 10), (5, 50)]" by simp
  have "\<exists>s' bns. assign id 200 100 two_maps = Some (Inr s')
           \<and> lhm_inv id s' 200 bns [(1, 10)] \<and> lhm_inv id s' 100 [2] [(1, 10)]
           \<and> lhm_nodes s' 100 [2] \<inter> lhm_nodes s' 200 bns = {}
           \<and> maps s' 100 = maps two_maps 100
           \<and> (\<forall>n\<in>lhm_nodes two_maps 100 [2]. nodes s' n = nodes two_maps n)
           \<and> traverse 200 s' = Some (Inr [(1, 10)]) \<and> traverse 100 s' = Some (Inr [(1, 10)])
           \<and> (\<forall>ops. \<exists>s'' bns'. run_ops id 200 ops s' = Some (Inr s'')
                  \<and> lhm_inv id s'' 200 bns' (spec_ops ops [(1, 10)])
                  \<and> traverse 200 s'' = Some (Inr (spec_ops ops [(1, 10)]))
                  \<and> lhm_inv id s'' 100 [2] [(1, 10)]
                  \<and> maps s'' 100 = maps two_maps 100
                  \<and> (\<forall>n\<in>lhm_nodes two_maps 100 [2]. nodes s'' n = nodes two_maps n)
                  \<and> traverse 100 s'' = Some (Inr [(1, 10)])
                  \<and> (\<forall>k. k \<notin> fst ` set [(1, 10::nat)]
                         \<longrightarrow> find_lhm id 100 k s'' = Some (end_lhm 100 s'')))"
    by (rule C8_copy[OF two_maps_inv(1) ne, where ?bns0.0 = "[]" and ?bes0.0 = "[]"])
      (simp add: two_maps_inv)
  then obtain s' where 1: "assign id 200 100 two_maps = Some (Inr s')"
    "traverse 200 s' = Some (Inr [(1, 10)])"
    and l: "\<forall>ops. \<exists>s''. run_ops id 200 ops s' = Some (Inr s'')
                  \<and> traverse 200 s'' = Some (Inr (spec_ops ops [(1, 10)]))
                  \<and> traverse 100 s'' = Some (Inr [(1, 10)])
                  \<and> (\<forall>k. k \<notin> fst ` set [(1, 10::nat)]
                         \<longrightarrow> find_lhm id 100 k s'' = Some (end_lhm 100 s''))"
    by blast
  from l obtain s'' where 2: "run_ops id 200 [Insert 5 50] s' = Some (Inr s'')"
    "traverse 200 s'' = Some (Inr (spec_ops [Insert 5 50] [(1, 10)]))"
    "traverse 100 s'' = Some (Inr [(1, 10)])"
    "\<forall>k. k \<notin> fst ` set [(1, 10::nat)] \<longrightarrow> find_lhm id 100 k s'' = Some (end_lhm 100 s'')"
    by blast
  from 2(4) k have "find_lhm id 100 5 s'' = Some (end_lhm 100 s'')" by blast
  with 1 2(1,3) 2(2)[unfolded sp]
  show "\<exists>s' s''. assign id 200 100 two_maps = Some (Inr s')
       \<and> traverse 200 s' = Some (Inr [(1, 10)])
       \<and> run_ops id 200 [Insert 5 50] s' = Some (Inr s'')
       \<and> traverse 200 s'' = Some (Inr [(1, 10), (5, 50)])
       \<and> traverse 100 s'' = Some (Inr [(1, 10)])
       \<and> find_lhm id 100 5 s'' = Some (end_lhm 100 s'')"
    by (intro exI[of _ s'] exI[of _ s''] conjI)
qed

end
